theory Spec2Isabelle
  imports Complex_Main
begin

section \<open>Data model of the simulator (src/main.py)\<close>

text \<open>
  The dataclasses \<open>StepResult\<close> and \<open>AlgorithmResult\<close>. Page identifiers, step numbers
  and fault counters are Python integers, hence \<open>int\<close>.
\<close>

record StepResult =
  step :: int
  page :: int
  frames :: "int list"
  is_hit :: bool

record AlgorithmResult =
  name :: string
  steps :: "StepResult list"
  total_faults :: int

definition total_accesses :: "AlgorithmResult \<Rightarrow> int" where
  "total_accesses r = int (length (steps r))"

definition total_hits :: "AlgorithmResult \<Rightarrow> int" where
  "total_hits r = total_accesses r - total_faults r"

text \<open>
  \<open>hit_ratio\<close> returns the literal \<open>0.0\<close> when there are no accesses; otherwise the
  quotient, taken here as the exact real quotient (the rounding of Python's float division
  is not part of the model).
\<close>

definition hit_ratio :: "AlgorithmResult \<Rightarrow> real" where
  "hit_ratio r =
     (if total_accesses r = 0 then 0
      else real_of_int (total_hits r) / real_of_int (total_accesses r))"

definition miss_ratio :: "AlgorithmResult \<Rightarrow> real" where
  "miss_ratio r = 1 - hit_ratio r"

section \<open>Python list primitives used by the algorithms\<close>

text \<open>The two exceptions the list and \<open>min\<close> primitives of the three functions can raise.\<close>

datatype error = IndexError | ValueError

text \<open>
  \<open>xs.index(x, start)\<close> for a start position that is not negative: the first position
  \<open>j \<ge> start\<close> with \<open>xs[j] == x\<close>; \<open>None\<close> stands for the \<open>ValueError\<close> Python raises
  when there is none.
\<close>

fun index_from :: "'a list \<Rightarrow> 'a \<Rightarrow> nat \<Rightarrow> nat option" where
  "index_from [] x j = None"
| "index_from (y # ys) x j = (if y = x then Some j else index_from ys x (Suc j))"

definition list_index :: "'a list \<Rightarrow> 'a \<Rightarrow> nat \<Rightarrow> nat option" where
  "list_index xs x start = index_from (drop start xs) x start"

text \<open>
  \<open>xs[k] = v\<close>: a negative \<open>k\<close> counts from the end, and a position outside the list
  raises \<open>IndexError\<close>.
\<close>

definition list_set :: "'a list \<Rightarrow> int \<Rightarrow> 'a \<Rightarrow> error + 'a list" where
  "list_set xs k v =
     (let n = int (length xs); j = (if k < 0 then n + k else k)
      in if 0 \<le> j \<and> j < n then Inr (xs[nat j := v]) else Inl IndexError)"

text \<open>
  \<open>min(xs, key=key)\<close>: the first element whose key is minimal (a later element replaces
  the current best only when its key is strictly smaller); \<open>ValueError\<close> on an empty list.
\<close>

fun py_min :: "('a \<Rightarrow> int) \<Rightarrow> 'a list \<Rightarrow> error + 'a" where
  "py_min key [] = Inl ValueError"
| "py_min key (x # xs) = Inr (foldl (\<lambda>best y. if key y < key best then y else best) x xs)"

text \<open>
  \<open>for i, page in enumerate(reference, start=1): body\<close>, threading the local variables of
  the function as a state; an exception raised by the body ends the loop.
\<close>

fun for_enumerate :: "(int \<Rightarrow> int \<Rightarrow> 's \<Rightarrow> error + 's) \<Rightarrow> int \<Rightarrow> int list \<Rightarrow> 's \<Rightarrow> error + 's" where
  "for_enumerate body i [] s = Inr s"
| "for_enumerate body i (pg # rest) s =
     (case body i pg s of
        Inl e \<Rightarrow> Inl e
      | Inr s' \<Rightarrow> for_enumerate body (i + 1) rest s')"

section \<open>\<open>simulate_fifo\<close>\<close>

record fifo_state =
  fifo_frames :: "int list"
  fifo_order :: "int list"
  fifo_steps :: "StepResult list"
  fifo_faults :: int

definition fifo_init :: fifo_state where
  "fifo_init = \<lparr>fifo_frames = [], fifo_order = [], fifo_steps = [], fifo_faults = 0\<rparr>"

definition fifo_body :: "int \<Rightarrow> int \<Rightarrow> int \<Rightarrow> fifo_state \<Rightarrow> error + fifo_state" where
  "fifo_body frames_count i pg s =
     (if pg \<in> set (fifo_frames s) then
        Inr (s\<lparr>fifo_steps := fifo_steps s @
               [\<lparr>step = i, page = pg, frames = fifo_frames s, is_hit = True\<rparr>]\<rparr>)
      else if int (length (fifo_frames s)) < frames_count then
        Inr \<lparr>fifo_frames = fifo_frames s @ [pg],
             fifo_order = fifo_order s @ [pg],
             fifo_steps = fifo_steps s @
               [\<lparr>step = i, page = pg, frames = fifo_frames s @ [pg], is_hit = False\<rparr>],
             fifo_faults = fifo_faults s + 1\<rparr>
      else
        (case fifo_order s of
           [] \<Rightarrow> Inl IndexError
         | victim # order' \<Rightarrow>
             (case list_index (fifo_frames s) victim 0 of
                None \<Rightarrow> Inl ValueError
              | Some victim_index \<Rightarrow>
                  (case list_set (fifo_frames s) (int victim_index) pg of
                     Inl e \<Rightarrow> Inl e
                   | Inr frames' \<Rightarrow>
                       Inr \<lparr>fifo_frames = frames',
                            fifo_order = order' @ [pg],
                            fifo_steps = fifo_steps s @
                              [\<lparr>step = i, page = pg, frames = frames', is_hit = False\<rparr>],
                            fifo_faults = fifo_faults s + 1\<rparr>))))"

definition simulate_fifo :: "int list \<Rightarrow> int \<Rightarrow> error + AlgorithmResult" where
  "simulate_fifo reference frames_count =
     (case for_enumerate (fifo_body frames_count) 1 reference fifo_init of
        Inl e \<Rightarrow> Inl e
      | Inr s \<Rightarrow> Inr \<lparr>name = ''FIFO'', steps = fifo_steps s, total_faults = fifo_faults s\<rparr>)"

section \<open>\<open>simulate_lru\<close>\<close>

record lru_state =
  lru_frames :: "int list"
  last_used :: "int \<rightharpoonup> int"
  lru_steps :: "StepResult list"
  lru_faults :: int

definition lru_init :: lru_state where
  "lru_init = \<lparr>lru_frames = [], last_used = Map.empty, lru_steps = [], lru_faults = 0\<rparr>"

text \<open>\<open>last_used.get(p, 0)\<close>\<close>

definition last_used_get :: "(int \<rightharpoonup> int) \<Rightarrow> int \<Rightarrow> int" where
  "last_used_get m p = (case m p of None \<Rightarrow> 0 | Some v \<Rightarrow> v)"

definition lru_body :: "int \<Rightarrow> int \<Rightarrow> int \<Rightarrow> lru_state \<Rightarrow> error + lru_state" where
  "lru_body frames_count i pg s =
     (if pg \<in> set (lru_frames s) then
        Inr (s\<lparr>last_used := (last_used s)(pg \<mapsto> i),
               lru_steps := lru_steps s @
               [\<lparr>step = i, page = pg, frames = lru_frames s, is_hit = True\<rparr>]\<rparr>)
      else if int (length (lru_frames s)) < frames_count then
        Inr \<lparr>lru_frames = lru_frames s @ [pg],
             last_used = (last_used s)(pg \<mapsto> i),
             lru_steps = lru_steps s @
               [\<lparr>step = i, page = pg, frames = lru_frames s @ [pg], is_hit = False\<rparr>],
             lru_faults = lru_faults s + 1\<rparr>
      else
        (case py_min (last_used_get (last_used s)) (lru_frames s) of
           Inl e \<Rightarrow> Inl e
         | Inr lru_page \<Rightarrow>
             (case list_index (lru_frames s) lru_page 0 of
                None \<Rightarrow> Inl ValueError
              | Some victim_index \<Rightarrow>
                  (case list_set (lru_frames s) (int victim_index) pg of
                     Inl e \<Rightarrow> Inl e
                   | Inr frames' \<Rightarrow>
                       Inr \<lparr>lru_frames = frames',
                            last_used = (last_used s)(pg \<mapsto> i),
                            lru_steps = lru_steps s @
                              [\<lparr>step = i, page = pg, frames = frames', is_hit = False\<rparr>],
                            lru_faults = lru_faults s + 1\<rparr>))))"

definition simulate_lru :: "int list \<Rightarrow> int \<Rightarrow> error + AlgorithmResult" where
  "simulate_lru reference frames_count =
     (case for_enumerate (lru_body frames_count) 1 reference lru_init of
        Inl e \<Rightarrow> Inl e
      | Inr s \<Rightarrow> Inr \<lparr>name = ''LRU'', steps = lru_steps s, total_faults = lru_faults s\<rparr>)"

section \<open>\<open>simulate_optimal\<close>\<close>

record optimal_state =
  optimal_frames :: "int list"
  optimal_steps :: "StepResult list"
  optimal_faults :: int

definition optimal_init :: optimal_state where
  "optimal_init = \<lparr>optimal_frames = [], optimal_steps = [], optimal_faults = 0\<rparr>"

text \<open>
  The inner loop \<open>for idx, p in enumerate(frames)\<close> with its two variables \<open>farthest_use\<close>
  and \<open>victim_index\<close>; it returns \<open>victim_index\<close>. The \<open>break\<close> of the \<open>except\<close> branch
  leaves the loop with \<open>victim_index = idx\<close> (\<open>farthest_use = math.inf\<close> is not read
  afterwards). The search \<open>reference.index(p, current_index + 1)\<close> starts at a position
  that is at least 1, since \<open>current_index = i - 1\<close> and \<open>i\<close> counts from 1.
\<close>

fun optimal_scan :: "int list \<Rightarrow> int \<Rightarrow> (nat \<times> int) list \<Rightarrow> int \<Rightarrow> int \<Rightarrow> int" where
  "optimal_scan reference current_index [] farthest_use victim_index = victim_index"
| "optimal_scan reference current_index ((idx, p) # rest) farthest_use victim_index =
     (case list_index reference p (nat (current_index + 1)) of
        None \<Rightarrow> int idx
      | Some next_use \<Rightarrow>
          if int next_use > farthest_use
          then optimal_scan reference current_index rest (int next_use) (int idx)
          else optimal_scan reference current_index rest farthest_use victim_index)"

definition optimal_body :: "int list \<Rightarrow> int \<Rightarrow> int \<Rightarrow> int \<Rightarrow> optimal_state \<Rightarrow> error + optimal_state" where
  "optimal_body reference frames_count i pg s =
     (if pg \<in> set (optimal_frames s) then
        Inr (s\<lparr>optimal_steps := optimal_steps s @
               [\<lparr>step = i, page = pg, frames = optimal_frames s, is_hit = True\<rparr>]\<rparr>)
      else if int (length (optimal_frames s)) < frames_count then
        Inr \<lparr>optimal_frames = optimal_frames s @ [pg],
             optimal_steps = optimal_steps s @
               [\<lparr>step = i, page = pg, frames = optimal_frames s @ [pg], is_hit = False\<rparr>],
             optimal_faults = optimal_faults s + 1\<rparr>
      else
        (let scanned = optimal_scan reference (i - 1) (enumerate 0 (optimal_frames s)) (- 1) (- 1);
             victim_index = (if scanned = - 1 then 0 else scanned)
         in case list_set (optimal_frames s) victim_index pg of
              Inl e \<Rightarrow> Inl e
            | Inr frames' \<Rightarrow>
                Inr \<lparr>optimal_frames = frames',
                     optimal_steps = optimal_steps s @
                       [\<lparr>step = i, page = pg, frames = frames', is_hit = False\<rparr>],
                     optimal_faults = optimal_faults s + 1\<rparr>))"

definition simulate_optimal :: "int list \<Rightarrow> int \<Rightarrow> error + AlgorithmResult" where
  "simulate_optimal reference frames_count =
     (case for_enumerate (optimal_body reference frames_count) 1 reference optimal_init of
        Inl e \<Rightarrow> Inl e
      | Inr s \<Rightarrow> Inr \<lparr>name = ''Optimal'', steps = optimal_steps s, total_faults = optimal_faults s\<rparr>)"

section \<open>Invariants of the three loops\<close>

text \<open>
  What one iteration does to the frame list \<open>fs\<close> on page \<open>pg\<close>, in all three
  functions: nothing on a hit, an append while fewer than \<open>fc\<close> slots are used, and
  otherwise the overwriting of one slot.
\<close>

definition frame_move :: "int \<Rightarrow> int list \<Rightarrow> int \<Rightarrow> int list \<Rightarrow> bool" where
  "frame_move fc fs pg fs' \<longleftrightarrow>
     (if pg \<in> set fs then fs' = fs
      else if int (length fs) < fc then fs' = fs @ [pg]
      else (\<exists>k<length fs. fs' = fs[k := pg]))"

text \<open>
  The invariant shared by the three loops after the references \<open>seen\<close>: the frame list
  \<open>fs\<close> has no duplicates, at most \<open>fc\<close> entries, and holds only pages referenced so
  far; there is one recorded step per reference, numbered from 1, with the referenced page,
  a snapshot that has no duplicates and at most \<open>fc\<close> entries, and a hit only for a page
  referenced before; the fault counter \<open>flt\<close> counts the steps that are not hits.
\<close>

definition trace_ok :: "int \<Rightarrow> int list \<Rightarrow> int list \<Rightarrow> StepResult list \<Rightarrow> int \<Rightarrow> bool" where
  "trace_ok fc seen fs sts flt \<longleftrightarrow>
     distinct fs \<and> int (length fs) \<le> fc \<and> set fs \<subseteq> set seen \<and>
     length sts = length seen \<and>
     (\<forall>k<length seen. step (sts ! k) = int k + 1 \<and> page (sts ! k) = seen ! k \<and>
         distinct (frames (sts ! k)) \<and> int (length (frames (sts ! k))) \<le> fc \<and>
         (is_hit (sts ! k) \<longrightarrow> seen ! k \<in> set (take k seen))) \<and>
     flt = int (length (filter (\<lambda>st. \<not> is_hit st) sts))"

text \<open>
  The step at which page \<open>q\<close> was last loaded according to the recorded steps: the step
  number of its last fault.
\<close>

definition loaded_at :: "StepResult list \<Rightarrow> int \<Rightarrow> int option" where
  "loaded_at sts q =
     (let loads = filter (\<lambda>st. page st = q \<and> \<not> is_hit st) sts
      in if loads = [] then None else Some (step (last loads)))"

text \<open>
  The invariant of the FIFO loop: the shared one, and the queue \<open>order\<close> lists exactly the
  resident pages, each once, by increasing load step.
\<close>

definition fifo_inv :: "int \<Rightarrow> int list \<Rightarrow> fifo_state \<Rightarrow> bool" where
  "fifo_inv fc seen s \<longleftrightarrow>
     trace_ok fc seen (fifo_frames s) (fifo_steps s) (fifo_faults s) \<and>
     distinct (fifo_order s) \<and> set (fifo_order s) = set (fifo_frames s) \<and>
     (\<forall>q\<in>set (fifo_order s). loaded_at (fifo_steps s) q \<noteq> None) \<and>
     sorted_wrt (\<lambda>a b. the (loaded_at (fifo_steps s) a) < the (loaded_at (fifo_steps s) b))
       (fifo_order s)"

text \<open>
  Position \<open>j\<close> (counted from 0) is the last one at which page \<open>q\<close> occurs in \<open>seen\<close>;
  the step number of that reference is \<open>j + 1\<close>.
\<close>

definition last_ref :: "int list \<Rightarrow> int \<Rightarrow> nat \<Rightarrow> bool" where
  "last_ref seen q j \<longleftrightarrow> j < length seen \<and> seen ! j = q \<and> q \<notin> set (drop (Suc j) seen)"

text \<open>
  The invariant of the LRU loop: the shared one; \<open>last_used\<close> holds, for every page
  referenced so far, the step of its last reference; every resident page was used more
  recently than every page that was referenced and is not resident; and while a slot is
  free, every page referenced so far is resident.
\<close>

definition lru_inv :: "int \<Rightarrow> int list \<Rightarrow> lru_state \<Rightarrow> bool" where
  "lru_inv fc seen s \<longleftrightarrow>
     trace_ok fc seen (lru_frames s) (lru_steps s) (lru_faults s) \<and>
     (\<forall>q\<in>set seen. \<exists>j. last_ref seen q j \<and> last_used s q = Some (int j + 1)) \<and>
     (\<forall>p\<in>set (lru_frames s). \<forall>q\<in>set seen - set (lru_frames s).
         last_used_get (last_used s) q < last_used_get (last_used s) p) \<and>
     (int (length (lru_frames s)) < fc \<longrightarrow> set (lru_frames s) = set seen)"

text \<open>
  The position of the next reference to page \<open>p\<close> strictly after the position
  \<open>current_index\<close>, as \<open>simulate_optimal\<close> looks it up; \<open>None\<close> when the page is not
  referenced again.
\<close>

definition next_use :: "int list \<Rightarrow> int \<Rightarrow> int \<Rightarrow> nat option" where
  "next_use reference current_index p = list_index reference p (nat (current_index + 1))"

text \<open>
  The victim rule of the optimal policy in the words of the specification: slot \<open>k\<close> of
  the frame list \<open>fs\<close> is the victim when, if some resident page is never referenced again,
  \<open>k\<close> is the lowest slot holding such a page, and otherwise \<open>k\<close> is the lowest slot
  whose page has the largest next-reference position.
\<close>

definition optimal_victim :: "int list \<Rightarrow> int \<Rightarrow> int list \<Rightarrow> nat \<Rightarrow> bool" where
  "optimal_victim reference current_index fs k \<longleftrightarrow>
     k < length fs \<and>
     (if \<exists>p\<in>set fs. next_use reference current_index p = None
      then next_use reference current_index (fs ! k) = None \<and>
           (\<forall>p\<in>set (take k fs). next_use reference current_index p \<noteq> None)
      else (\<forall>p\<in>set fs. the (next_use reference current_index p)
                 \<le> the (next_use reference current_index (fs ! k))) \<and>
           (\<forall>p\<in>set (take k fs). the (next_use reference current_index p)
                 < the (next_use reference current_index (fs ! k))))"

text \<open>The invariant of the optimal loop is the shared one.\<close>

definition optimal_inv :: "int \<Rightarrow> int list \<Rightarrow> optimal_state \<Rightarrow> bool" where
  "optimal_inv fc seen s \<longleftrightarrow>
     trace_ok fc seen (optimal_frames s) (optimal_steps s) (optimal_faults s)"

text \<open>
  With one frame the three loops stay in step: same frame list (empty or one page), same
  recorded steps, same fault counter, and the FIFO queue equals the frame list.
\<close>

definition cap1_rel :: "fifo_state \<Rightarrow> lru_state \<Rightarrow> optimal_state \<Rightarrow> bool" where
  "cap1_rel s1 s2 s3 \<longleftrightarrow>
     length (fifo_frames s1) \<le> 1 \<and> fifo_order s1 = fifo_frames s1 \<and>
     lru_frames s2 = fifo_frames s1 \<and> optimal_frames s3 = fifo_frames s1 \<and>
     lru_steps s2 = fifo_steps s1 \<and> optimal_steps s3 = fifo_steps s1 \<and>
     lru_faults s2 = fifo_faults s1 \<and> optimal_faults s3 = fifo_faults s1"

text \<open>
  One step of the optimal policy on the set of resident pages, for capacity \<open>c\<close>:
  \<open>live\<close> is the set of pages referenced after the current position and \<open>nxt\<close> gives the
  position of the next reference of such a page. A hit changes nothing, a fault with a
  free slot adds the page, and a fault with all \<open>c\<close> slots taken replaces a victim that
  either is not referenced again or, when every resident page is referenced again, has the
  largest next reference.
\<close>

definition opt_move :: "nat \<Rightarrow> int set \<Rightarrow> (int \<Rightarrow> nat) \<Rightarrow> int set \<Rightarrow> int \<Rightarrow> int set \<Rightarrow> bool" where
  "opt_move c live nxt A pg A' \<longleftrightarrow>
     (pg \<in> A \<and> A' = A) \<or>
     (pg \<notin> A \<and> card A < c \<and> A' = insert pg A) \<or>
     (pg \<notin> A \<and> card A = c \<and>
        (\<exists>v\<in>A. A' = insert pg (A - {v}) \<and>
           (v \<notin> live \<or> (A \<subseteq> live \<and> (\<forall>q\<in>A. nxt q \<le> nxt v)))))"

section \<open>Concrete runs and the paths without a capacity check\<close>

text \<open>
  C9. For the reference sequence 1,2,3,4,1,2,5,1,2,3,4,5, \<open>simulate_fifo\<close> returns a
  result with 9 faults at frame capacity 3 and with 10 faults at frame capacity 4.
\<close>

theorem fifo_belady_counts:
  "map_sum id total_faults (simulate_fifo [1, 2, 3, 4, 1, 2, 5, 1, 2, 3, 4, 5] 3) = Inr 9 \<and>
   map_sum id total_faults (simulate_fifo [1, 2, 3, 4, 1, 2, 5, 1, 2, 3, 4, 5] 4) = Inr 10"
  by code_simp

text \<open>
  C10. On an empty reference sequence each of the three functions returns a result with
  no steps and no faults, whose hit ratio is 0, whatever integer the frame count is (zero
  and negative values included): the loop body, the only place that looks at the frame
  count, is never entered.
\<close>

theorem empty_reference_result:
  "simulate_fifo [] frames_count = Inr \<lparr>name = ''FIFO'', steps = [], total_faults = 0\<rparr> \<and>
   simulate_lru [] frames_count = Inr \<lparr>name = ''LRU'', steps = [], total_faults = 0\<rparr> \<and>
   simulate_optimal [] frames_count = Inr \<lparr>name = ''Optimal'', steps = [], total_faults = 0\<rparr> \<and>
   hit_ratio \<lparr>name = ''FIFO'', steps = [], total_faults = 0\<rparr> = 0 \<and>
   hit_ratio \<lparr>name = ''LRU'', steps = [], total_faults = 0\<rparr> = 0 \<and>
   hit_ratio \<lparr>name = ''Optimal'', steps = [], total_faults = 0\<rparr> = 0"
  by (simp add: simulate_fifo_def simulate_lru_def simulate_optimal_def fifo_init_def
      lru_init_def optimal_init_def hit_ratio_def total_accesses_def)

text \<open>
  C4, as stated (every frame capacity that is 0 or negative makes each function fail):
  false. With an empty reference sequence and capacity 0 or -1 the three functions return
  a result, they do not fail.
\<close>

theorem invalid_capacity_counterexample:
  "\<not> isl (simulate_fifo [] 0) \<and> \<not> isl (simulate_lru [] 0) \<and> \<not> isl (simulate_optimal [] (- 1))"
  by (simp add: simulate_fifo_def simulate_lru_def simulate_optimal_def)

text \<open>
  C4, amended. For a frame capacity that is 0 or negative and a reference sequence that is
  not empty, each function fails at its first step and returns no result: \<open>simulate_fifo\<close>
  with the \<open>IndexError\<close> of \<open>order.pop(0)\<close> on the empty queue, \<open>simulate_lru\<close> with the
  \<open>ValueError\<close> of \<open>min\<close> on the empty frame list, \<open>simulate_optimal\<close> with the
  \<open>IndexError\<close> of the assignment to slot 0 of the empty frame list. The functions do not
  validate the capacity, and there is no failure kind of its own for it.
\<close>

theorem nonpositive_capacity_fails:
  assumes "frames_count \<le> 0"
  shows "simulate_fifo (pg # rest) frames_count = Inl IndexError \<and>
         simulate_lru (pg # rest) frames_count = Inl ValueError \<and>
         simulate_optimal (pg # rest) frames_count = Inl IndexError"
  using assms
  by (simp add: simulate_fifo_def simulate_lru_def simulate_optimal_def fifo_init_def
      lru_init_def optimal_init_def fifo_body_def lru_body_def optimal_body_def
      enumerate_eq_zip list_set_def)

theorem nonpositive_capacity_fails_witness:
  "(0::int) \<le> 0 \<and> simulate_fifo [7, 0, 1] 0 = Inl IndexError \<and>
   simulate_lru [7, 0, 1] 0 = Inl ValueError \<and>
   simulate_optimal [7, 0, 1] 0 = Inl IndexError"
  using nonpositive_capacity_fails [of 0 7 "[0, 1]"] by simp

section \<open>The loop and the list primitives\<close>

lemma for_enumerate_append:
  fixes body :: "int \<Rightarrow> int \<Rightarrow> 's \<Rightarrow> error + 's"
  shows "for_enumerate body i (xs @ ys) s =
     (case for_enumerate body i xs s of
        Inl e \<Rightarrow> Inl e
      | Inr s' \<Rightarrow> for_enumerate body (i + int (length xs)) ys s')"
proof (induction xs arbitrary: i s)
  case Nil
  show ?case by simp
next
  case (Cons x xs)
  have eq: "i + 1 + int (length xs) = i + int (length (x # xs))" by simp
  show ?case
  proof (cases "body i x s")
    case (Inl e)
    then show ?thesis by simp
  next
    case (Inr s1)
    then show ?thesis using Cons.IH [of "i + 1" s1] unfolding eq by simp
  qed
qed

lemma for_enumerate_snoc:
  "for_enumerate body 1 (xs @ [x]) s =
     (case for_enumerate body 1 xs s of
        Inl e \<Rightarrow> Inl e
      | Inr s' \<Rightarrow> body (int (length xs) + 1) x s')"
  by (simp add: for_enumerate_append add.commute split: sum.splits)

lemma index_from_None: "index_from ys x j = None \<longleftrightarrow> x \<notin> set ys"
  by (induction ys arbitrary: j) auto

lemma index_from_Some:
  "index_from ys x j = Some k \<Longrightarrow>
     j \<le> k \<and> k - j < length ys \<and> ys ! (k - j) = x \<and> (\<forall>m<k - j. ys ! m \<noteq> x)"
proof (induction ys arbitrary: j)
  case Nil
  then show ?case by simp
next
  case (Cons y ys)
  show ?case
  proof (cases "y = x")
    case True
    with Cons.prems show ?thesis by simp
  next
    case False
    with Cons.prems have rec: "index_from ys x (Suc j) = Some k" by simp
    from Cons.IH [OF rec] have a: "Suc j \<le> k" and b: "k - Suc j < length ys"
      and c: "ys ! (k - Suc j) = x" and d: "\<forall>m<k - Suc j. ys ! m \<noteq> x" by auto
    from a have e: "k - j = Suc (k - Suc j)" by simp
    have "\<forall>m<k - j. (y # ys) ! m \<noteq> x"
    proof (intro allI impI)
      fix m assume "m < k - j"
      then show "(y # ys) ! m \<noteq> x" using False d e by (cases m) auto
    qed
    with a b c e show ?thesis by simp
  qed
qed

lemma list_index_None: "list_index xs x start = None \<longleftrightarrow> x \<notin> set (drop start xs)"
  by (simp add: list_index_def index_from_None)

lemma list_index_Some:
  assumes "list_index xs x start = Some k"
  shows "start \<le> k" and "k < length xs" and "xs ! k = x"
    and "\<And>m. start \<le> m \<Longrightarrow> m < k \<Longrightarrow> xs ! m \<noteq> x"
proof -
  from assms have h: "index_from (drop start xs) x start = Some k"
    by (simp add: list_index_def)
  note f = index_from_Some [OF h]
  from f show a: "start \<le> k" by simp
  from f have b: "k - start < length xs - start" by simp
  with a show c: "k < length xs" by simp
  from f a c show "xs ! k = x" by simp
  fix m assume m: "start \<le> m" "m < k"
  then have "m - start < k - start" by simp
  with f have "drop start xs ! (m - start) \<noteq> x" by blast
  with m c show "xs ! m \<noteq> x" by simp
qed

lemma list_index_first:
  assumes "k < length xs" and "xs ! k = x" and "\<forall>m<k. xs ! m \<noteq> x"
  shows "list_index xs x 0 = Some k"
proof (cases "list_index xs x 0")
  case None
  then have "x \<notin> set xs" by (simp add: list_index_None)
  with assms show ?thesis by auto
next
  case (Some j)
  note f = list_index_Some [OF Some]
  have "\<not> j < k" using assms(3) f(3) by blast
  moreover have "\<not> k < j" using f(4) [of k] assms(2) by auto
  ultimately show ?thesis using Some by simp
qed

lemma list_set_in_range: "k < length xs \<Longrightarrow> list_set xs (int k) v = Inr (xs[k := v])"
  by (simp add: list_set_def Let_def)

section \<open>The shared invariant is kept by every iteration\<close>

lemma frame_move_distinct:
  assumes "frame_move fc fs pg fs'" and "distinct fs"
  shows "distinct fs'"
proof (cases "pg \<in> set fs")
  case True
  with assms show ?thesis by (simp add: frame_move_def)
next
  case False
  show ?thesis
  proof (cases "int (length fs) < fc")
    case True
    with False assms show ?thesis by (simp add: frame_move_def)
  next
    case full: False
    with False assms obtain k where "k < length fs" "fs' = fs[k := pg]"
      by (auto simp: frame_move_def)
    with False assms(2) show ?thesis by (simp add: distinct_list_update)
  qed
qed

lemma frame_move_length:
  assumes "frame_move fc fs pg fs'" and "int (length fs) \<le> fc"
  shows "int (length fs') \<le> fc"
  using assms by (auto simp: frame_move_def split: if_splits)

lemma frame_move_set:
  assumes "frame_move fc fs pg fs'"
  shows "set fs' \<subseteq> insert pg (set fs)"
proof (cases "pg \<in> set fs \<or> int (length fs) < fc")
  case True
  with assms show ?thesis by (auto simp: frame_move_def split: if_splits)
next
  case False
  with assms obtain k where "k < length fs" "fs' = fs[k := pg]"
    by (auto simp: frame_move_def)
  then show ?thesis using set_update_subset_insert [of fs k pg] by simp
qed

lemma trace_ok_step:
  assumes ok: "trace_ok fc seen fs sts flt" and mv: "frame_move fc fs pg fs'"
  shows "trace_ok fc (seen @ [pg]) fs'
           (sts @ [\<lparr>step = int (length seen) + 1, page = pg, frames = fs', is_hit = (pg \<in> set fs)\<rparr>])
           (if pg \<in> set fs then flt else flt + 1)"
proof -
  from ok have d: "distinct fs" and l: "int (length fs) \<le> fc" and sub: "set fs \<subseteq> set seen"
    and len: "length sts = length seen"
    and old: "\<forall>k<length seen. step (sts ! k) = int k + 1 \<and> page (sts ! k) = seen ! k \<and>
         distinct (frames (sts ! k)) \<and> int (length (frames (sts ! k))) \<le> fc \<and>
         (is_hit (sts ! k) \<longrightarrow> seen ! k \<in> set (take k seen))"
    and fl: "flt = int (length (filter (\<lambda>st. \<not> is_hit st) sts))"
    by (simp_all add: trace_ok_def)
  have d': "distinct fs'" using frame_move_distinct [OF mv d] .
  have l': "int (length fs') \<le> fc" using frame_move_length [OF mv l] .
  have sub': "set fs' \<subseteq> set (seen @ [pg])" using frame_move_set [OF mv] sub by auto
  let ?st = "\<lparr>step = int (length seen) + 1, page = pg, frames = fs', is_hit = (pg \<in> set fs)\<rparr>"
  have new: "\<forall>k<length (seen @ [pg]). step ((sts @ [?st]) ! k) = int k + 1 \<and>
         page ((sts @ [?st]) ! k) = (seen @ [pg]) ! k \<and>
         distinct (frames ((sts @ [?st]) ! k)) \<and> int (length (frames ((sts @ [?st]) ! k))) \<le> fc \<and>
         (is_hit ((sts @ [?st]) ! k) \<longrightarrow> (seen @ [pg]) ! k \<in> set (take k (seen @ [pg])))"
  proof (intro allI impI)
    fix k assume "k < length (seen @ [pg])"
    then consider "k < length seen" | "k = length seen" by fastforce
    then show "step ((sts @ [?st]) ! k) = int k + 1 \<and>
         page ((sts @ [?st]) ! k) = (seen @ [pg]) ! k \<and>
         distinct (frames ((sts @ [?st]) ! k)) \<and> int (length (frames ((sts @ [?st]) ! k))) \<le> fc \<and>
         (is_hit ((sts @ [?st]) ! k) \<longrightarrow> (seen @ [pg]) ! k \<in> set (take k (seen @ [pg])))"
    proof cases
      case 1
      with old len show ?thesis by (simp add: nth_append)
    next
      case 2
      with len d' l' sub show ?thesis by (auto simp: nth_append)
    qed
  qed
  have fl': "(if pg \<in> set fs then flt else flt + 1) =
      int (length (filter (\<lambda>st. \<not> is_hit st) (sts @ [?st])))"
    using fl by simp
  show ?thesis
    unfolding trace_ok_def using d' l' sub' len new fl' by simp
qed

section \<open>FIFO: the queue is the arrival order of the resident pages\<close>

lemma loaded_at_snoc:
  "loaded_at (sts @ [st]) q =
     (if page st = q \<and> \<not> is_hit st then Some (step st) else loaded_at sts q)"
  by (simp add: loaded_at_def Let_def)

lemma loaded_at_in_steps:
  assumes "loaded_at sts q = Some j"
  shows "\<exists>st\<in>set sts. step st = j"
proof -
  let ?l = "filter (\<lambda>st. page st = q \<and> \<not> is_hit st) sts"
  from assms have ne: "?l \<noteq> []" and j: "j = step (last ?l)"
    by (auto simp: loaded_at_def Let_def split: if_splits)
  from ne have "last ?l \<in> set ?l" by (rule last_in_set)
  then have "last ?l \<in> set sts" by simp
  with j show ?thesis by blast
qed

lemma trace_ok_step_bound:
  assumes "trace_ok fc seen fs sts flt" and "st \<in> set sts"
  shows "step st \<le> int (length seen)"
proof -
  from assms(2) obtain k where k: "k < length sts" "sts ! k = st"
    by (auto simp: in_set_conv_nth)
  with assms(1) have "step st = int k + 1" and "k < length seen"
    by (auto simp: trace_ok_def)
  then show ?thesis by simp
qed

lemma loaded_at_bound:
  assumes "trace_ok fc seen fs sts flt" and "loaded_at sts q = Some j"
  shows "j \<le> int (length seen)"
  using loaded_at_in_steps [OF assms(2)] trace_ok_step_bound [OF assms(1)] by blast

lemma fifo_body_hit:
  assumes "pg \<in> set (fifo_frames s)"
  shows "fifo_body fc i pg s =
     Inr (s\<lparr>fifo_steps := fifo_steps s @
               [\<lparr>step = i, page = pg, frames = fifo_frames s, is_hit = True\<rparr>]\<rparr>)"
  using assms by (simp add: fifo_body_def)

lemma fifo_body_append:
  assumes "pg \<notin> set (fifo_frames s)" and "int (length (fifo_frames s)) < fc"
  shows "fifo_body fc i pg s =
     Inr \<lparr>fifo_frames = fifo_frames s @ [pg],
          fifo_order = fifo_order s @ [pg],
          fifo_steps = fifo_steps s @
            [\<lparr>step = i, page = pg, frames = fifo_frames s @ [pg], is_hit = False\<rparr>],
          fifo_faults = fifo_faults s + 1\<rparr>"
  using assms by (simp add: fifo_body_def)

lemma fifo_body_evict:
  assumes "pg \<notin> set (fifo_frames s)" and "\<not> int (length (fifo_frames s)) < fc"
    and "fifo_order s = victim # order'"
    and "k < length (fifo_frames s)" and "fifo_frames s ! k = victim"
    and "\<forall>m<k. fifo_frames s ! m \<noteq> victim"
  shows "fifo_body fc i pg s =
     Inr \<lparr>fifo_frames = (fifo_frames s)[k := pg],
          fifo_order = order' @ [pg],
          fifo_steps = fifo_steps s @
            [\<lparr>step = i, page = pg, frames = (fifo_frames s)[k := pg], is_hit = False\<rparr>],
          fifo_faults = fifo_faults s + 1\<rparr>"
  using assms list_index_first [of k "fifo_frames s" victim]
  by (simp add: fifo_body_def list_set_in_range)

lemma first_position:
  assumes "x \<in> set xs"
  shows "\<exists>k<length xs. xs ! k = x \<and> (\<forall>m<k. xs ! m \<noteq> x)"
proof (cases "list_index xs x 0")
  case None
  with assms show ?thesis by (simp add: list_index_None)
next
  case (Some k)
  note f = list_index_Some [OF Some]
  from f(2) f(3) f(4) show ?thesis by blast
qed

text \<open>What the queue looks like when the frame list is full, for a capacity of at least 1.\<close>

lemma fifo_full_front:
  assumes inv: "fifo_inv fc seen s" and fc: "1 \<le> fc"
    and full: "\<not> int (length (fifo_frames s)) < fc"
  shows "\<exists>victim order' k. fifo_order s = victim # order' \<and> k < length (fifo_frames s) \<and>
           fifo_frames s ! k = victim \<and> (\<forall>m<k. fifo_frames s ! m \<noteq> victim)"
proof -
  from full fc have "fifo_frames s \<noteq> []" by auto
  moreover from inv have so: "set (fifo_order s) = set (fifo_frames s)"
    by (simp add: fifo_inv_def)
  ultimately have "fifo_order s \<noteq> []" by auto
  then obtain victim order' where o: "fifo_order s = victim # order'"
    by (cases "fifo_order s") auto
  with so have "victim \<in> set (fifo_frames s)" by auto
  from first_position [OF this] o show ?thesis by blast
qed

lemma fifo_body_inv:
  assumes inv: "fifo_inv fc seen s" and fc: "1 \<le> fc"
  shows "\<exists>s'. fifo_body fc (int (length seen) + 1) pg s = Inr s' \<and> fifo_inv fc (seen @ [pg]) s'"
proof -
  let ?i = "int (length seen) + 1"
  let ?F = "fifo_frames s" and ?O = "fifo_order s" and ?S = "fifo_steps s"
  from inv have tr: "trace_ok fc seen ?F ?S (fifo_faults s)"
    and dO: "distinct ?O" and so: "set ?O = set ?F"
    and ld: "\<forall>q\<in>set ?O. loaded_at ?S q \<noteq> None"
    and srt: "sorted_wrt (\<lambda>a b. the (loaded_at ?S a) < the (loaded_at ?S b)) ?O"
    by (simp_all add: fifo_inv_def)
  have bound: "\<And>q. q \<in> set ?O \<Longrightarrow> the (loaded_at ?S q) < ?i"
  proof -
    fix q assume "q \<in> set ?O"
    with ld obtain j where j: "loaded_at ?S q = Some j" by auto
    from loaded_at_bound [OF tr j] j show "the (loaded_at ?S q) < ?i" by simp
  qed
  show ?thesis
  proof (cases "pg \<in> set ?F")
    case True
    let ?s' = "s\<lparr>fifo_steps := ?S @ [\<lparr>step = ?i, page = pg, frames = ?F, is_hit = True\<rparr>]\<rparr>"
    have mv: "frame_move fc ?F pg ?F" using True by (simp add: frame_move_def)
    from trace_ok_step [OF tr mv] True
    have tr': "trace_ok fc (seen @ [pg]) (fifo_frames ?s') (fifo_steps ?s') (fifo_faults ?s')"
      by simp
    have same: "\<And>q. loaded_at (fifo_steps ?s') q = loaded_at ?S q"
      by (simp add: loaded_at_snoc)
    have "fifo_inv fc (seen @ [pg]) ?s'"
      unfolding fifo_inv_def same using tr' dO so ld srt by simp
    with fifo_body_hit [OF True] show ?thesis by simp
  next
    case False
    then have pgO: "pg \<notin> set ?O" using so by simp
    have keep: "\<And>st q. page st = pg \<Longrightarrow> q \<in> set ?O \<Longrightarrow>
        loaded_at (?S @ [st]) q = loaded_at ?S q"
      using pgO by (auto simp: loaded_at_snoc)
    show ?thesis
    proof (cases "int (length ?F) < fc")
      case True
      let ?st = "\<lparr>step = ?i, page = pg, frames = ?F @ [pg], is_hit = False\<rparr>"
      let ?s' = "\<lparr>fifo_frames = ?F @ [pg], fifo_order = ?O @ [pg],
          fifo_steps = ?S @ [?st], fifo_faults = fifo_faults s + 1\<rparr>"
      have mv: "frame_move fc ?F pg (?F @ [pg])" using False True by (simp add: frame_move_def)
      from trace_ok_step [OF tr mv] False
      have tr': "trace_ok fc (seen @ [pg]) (?F @ [pg]) (?S @ [?st]) (fifo_faults s + 1)"
        by simp
      have new: "loaded_at (?S @ [?st]) pg = Some ?i" by (simp add: loaded_at_snoc)
      have old: "\<And>q. q \<in> set ?O \<Longrightarrow> loaded_at (?S @ [?st]) q = loaded_at ?S q"
        using keep [of ?st] by simp
      have ld': "\<forall>q\<in>set (?O @ [pg]). loaded_at (?S @ [?st]) q \<noteq> None"
        using ld old new by auto
      have srt0: "sorted_wrt (\<lambda>a b. the (loaded_at (?S @ [?st]) a) < the (loaded_at (?S @ [?st]) b)) ?O"
        using srt old by (simp add: sorted_wrt_iff_nth_less)
      have srt': "sorted_wrt (\<lambda>a b. the (loaded_at (?S @ [?st]) a) < the (loaded_at (?S @ [?st]) b))
          (?O @ [pg])"
        using srt0 old new bound by (simp add: sorted_wrt_append)
      have "fifo_inv fc (seen @ [pg]) ?s'"
        unfolding fifo_inv_def using tr' dO pgO so ld' srt' by simp
      with fifo_body_append [OF False True] show ?thesis by simp
    next
      case full: False
      from fifo_full_front [OF inv fc full] obtain victim order' k where
        o: "?O = victim # order'" and k: "k < length ?F" and fk: "?F ! k = victim"
        and first: "\<forall>m<k. ?F ! m \<noteq> victim" by blast
      let ?F' = "?F[k := pg]"
      let ?st = "\<lparr>step = ?i, page = pg, frames = ?F', is_hit = False\<rparr>"
      let ?s' = "\<lparr>fifo_frames = ?F', fifo_order = order' @ [pg],
          fifo_steps = ?S @ [?st], fifo_faults = fifo_faults s + 1\<rparr>"
      have mv: "frame_move fc ?F pg ?F'" using False full k by (auto simp: frame_move_def)
      from trace_ok_step [OF tr mv] False
      have tr': "trace_ok fc (seen @ [pg]) ?F' (?S @ [?st]) (fifo_faults s + 1)"
        by simp
      have dF: "distinct ?F" using tr by (simp add: trace_ok_def)
      have setF': "set ?F' = insert pg (set ?F - {victim})"
        using dF k fk by (simp add: set_update_distinct)
      have vo: "victim \<notin> set order'" using dO o by simp
      have so': "set (order' @ [pg]) = set ?F'"
        using setF' so o vo by auto
      have new: "loaded_at (?S @ [?st]) pg = Some ?i" by (simp add: loaded_at_snoc)
      have old: "\<And>q. q \<in> set ?O \<Longrightarrow> loaded_at (?S @ [?st]) q = loaded_at ?S q"
        using keep [of ?st] by simp
      have ld': "\<forall>q\<in>set (order' @ [pg]). loaded_at (?S @ [?st]) q \<noteq> None"
        using ld old new o by auto
      have srt0: "sorted_wrt (\<lambda>a b. the (loaded_at (?S @ [?st]) a) < the (loaded_at (?S @ [?st]) b)) ?O"
        using srt old by (simp add: sorted_wrt_iff_nth_less)
      have srt': "sorted_wrt (\<lambda>a b. the (loaded_at (?S @ [?st]) a) < the (loaded_at (?S @ [?st]) b))
          (order' @ [pg])"
        using srt0 old new bound o by (simp add: sorted_wrt_append)
      have dO': "distinct (order' @ [pg])" using dO o pgO by simp
      have "fifo_inv fc (seen @ [pg]) ?s'"
        unfolding fifo_inv_def using tr' dO' so' ld' srt' by simp
      with fifo_body_evict [OF False full o k fk first] show ?thesis by simp
    qed
  qed
qed

lemma fifo_inv_init: "0 \<le> fc \<Longrightarrow> fifo_inv fc [] fifo_init"
  by (simp add: fifo_inv_def fifo_init_def trace_ok_def)

lemma fifo_run:
  assumes fc: "1 \<le> fc"
  shows "\<exists>s. for_enumerate (fifo_body fc) 1 seen fifo_init = Inr s \<and> fifo_inv fc seen s"
proof (induction seen rule: rev_induct)
  case Nil
  from fc show ?case by (simp add: fifo_inv_init)
next
  case (snoc pg seen)
  then obtain s where run: "for_enumerate (fifo_body fc) 1 seen fifo_init = Inr s"
    and inv: "fifo_inv fc seen s" by blast
  from fifo_body_inv [OF inv fc, of pg] run show ?case
    by (simp add: for_enumerate_snoc)
qed

text \<open>
  C3. In every state \<open>s\<close> that \<open>simulate_fifo\<close> reaches with a capacity of at least 1
  (after the references \<open>seen\<close>): the queue \<open>order\<close> holds exactly the currently resident
  pages, each once, in the order of the steps at which they were loaded, oldest first; a
  hit leaves the queue and the frames as they are; on a fault with the frame list full the
  victim is the front of the queue, which is the resident page loaded earliest, the slot
  \<open>k\<close> holding it receives the new page in place, and the new page goes to the back of
  the queue.
\<close>

theorem fifo_victim_selection:
  assumes fc: "1 \<le> frames_count"
    and run: "for_enumerate (fifo_body frames_count) 1 seen fifo_init = Inr s"
  shows "distinct (fifo_order s) \<and> set (fifo_order s) = set (fifo_frames s) \<and>
    (\<forall>q\<in>set (fifo_order s). loaded_at (fifo_steps s) q \<noteq> None) \<and>
    sorted_wrt (\<lambda>a b. the (loaded_at (fifo_steps s) a) < the (loaded_at (fifo_steps s) b))
      (fifo_order s) \<and>
    (pg \<in> set (fifo_frames s) \<longrightarrow>
       (\<exists>s'. fifo_body frames_count i pg s = Inr s' \<and> fifo_order s' = fifo_order s \<and>
             fifo_frames s' = fifo_frames s)) \<and>
    (pg \<notin> set (fifo_frames s) \<and> \<not> int (length (fifo_frames s)) < frames_count \<longrightarrow>
       (\<exists>victim order' k s'. fifo_order s = victim # order' \<and>
           k < length (fifo_frames s) \<and> fifo_frames s ! k = victim \<and>
           (\<forall>q\<in>set (fifo_frames s).
               the (loaded_at (fifo_steps s) victim) \<le> the (loaded_at (fifo_steps s) q)) \<and>
           fifo_body frames_count i pg s = Inr s' \<and>
           fifo_frames s' = (fifo_frames s)[k := pg] \<and>
           fifo_order s' = order' @ [pg]))"
proof -
  from fifo_run [OF fc, of seen] run have inv: "fifo_inv frames_count seen s" by simp
  then have dO: "distinct (fifo_order s)" and so: "set (fifo_order s) = set (fifo_frames s)"
    and ld: "\<forall>q\<in>set (fifo_order s). loaded_at (fifo_steps s) q \<noteq> None"
    and srt: "sorted_wrt (\<lambda>a b. the (loaded_at (fifo_steps s) a) < the (loaded_at (fifo_steps s) b))
      (fifo_order s)"
    by (simp_all add: fifo_inv_def)
  have hit: "pg \<in> set (fifo_frames s) \<longrightarrow>
       (\<exists>s'. fifo_body frames_count i pg s = Inr s' \<and> fifo_order s' = fifo_order s \<and>
             fifo_frames s' = fifo_frames s)"
    by (simp add: fifo_body_hit)
  have evict: "pg \<notin> set (fifo_frames s) \<and> \<not> int (length (fifo_frames s)) < frames_count \<longrightarrow>
       (\<exists>victim order' k s'. fifo_order s = victim # order' \<and>
           k < length (fifo_frames s) \<and> fifo_frames s ! k = victim \<and>
           (\<forall>q\<in>set (fifo_frames s).
               the (loaded_at (fifo_steps s) victim) \<le> the (loaded_at (fifo_steps s) q)) \<and>
           fifo_body frames_count i pg s = Inr s' \<and>
           fifo_frames s' = (fifo_frames s)[k := pg] \<and>
           fifo_order s' = order' @ [pg])"
  proof
    assume a: "pg \<notin> set (fifo_frames s) \<and> \<not> int (length (fifo_frames s)) < frames_count"
    then have nin: "pg \<notin> set (fifo_frames s)"
      and full: "\<not> int (length (fifo_frames s)) < frames_count" by simp_all
    from fifo_full_front [OF inv fc full] obtain victim order' k where
      o: "fifo_order s = victim # order'" and k: "k < length (fifo_frames s)"
      and fk: "fifo_frames s ! k = victim"
      and first: "\<forall>m<k. fifo_frames s ! m \<noteq> victim" by blast
    have early: "\<forall>q\<in>set (fifo_frames s).
        the (loaded_at (fifo_steps s) victim) \<le> the (loaded_at (fifo_steps s) q)"
    proof
      fix q assume "q \<in> set (fifo_frames s)"
      with so o have "q = victim \<or> q \<in> set order'" by auto
      with srt o show "the (loaded_at (fifo_steps s) victim) \<le> the (loaded_at (fifo_steps s) q)"
        by auto
    qed
    let ?s' = "\<lparr>fifo_frames = (fifo_frames s)[k := pg], fifo_order = order' @ [pg],
          fifo_steps = fifo_steps s @
            [\<lparr>step = i, page = pg, frames = (fifo_frames s)[k := pg], is_hit = False\<rparr>],
          fifo_faults = fifo_faults s + 1\<rparr>"
    have b: "fifo_body frames_count i pg s = Inr ?s'"
      by (rule fifo_body_evict [OF nin full o k fk first])
    have "fifo_order s = victim # order' \<and>
           k < length (fifo_frames s) \<and> fifo_frames s ! k = victim \<and>
           (\<forall>q\<in>set (fifo_frames s).
               the (loaded_at (fifo_steps s) victim) \<le> the (loaded_at (fifo_steps s) q)) \<and>
           fifo_body frames_count i pg s = Inr ?s' \<and>
           fifo_frames ?s' = (fifo_frames s)[k := pg] \<and>
           fifo_order ?s' = order' @ [pg]"
      using o k fk early b by simp
    then show "\<exists>victim order' k s'. fifo_order s = victim # order' \<and>
           k < length (fifo_frames s) \<and> fifo_frames s ! k = victim \<and>
           (\<forall>q\<in>set (fifo_frames s).
               the (loaded_at (fifo_steps s) victim) \<le> the (loaded_at (fifo_steps s) q)) \<and>
           fifo_body frames_count i pg s = Inr s' \<and>
           fifo_frames s' = (fifo_frames s)[k := pg] \<and>
           fifo_order s' = order' @ [pg]"
      by blast
  qed
  from dO so ld srt hit evict show ?thesis by blast
qed

theorem fifo_victim_selection_witness:
  "(1::int) \<le> 2 \<and>
   for_enumerate (fifo_body 2) 1 [7, 0, 7] fifo_init =
     Inr \<lparr>fifo_frames = [7, 0], fifo_order = [7, 0],
          fifo_steps = [\<lparr>step = 1, page = 7, frames = [7], is_hit = False\<rparr>,
                        \<lparr>step = 2, page = 0, frames = [7, 0], is_hit = False\<rparr>,
                        \<lparr>step = 3, page = 7, frames = [7, 0], is_hit = True\<rparr>],
          fifo_faults = 2\<rparr> \<and>
   map_sum id fifo_order
     (fifo_body 2 4 1
        \<lparr>fifo_frames = [7, 0], fifo_order = [7, 0],
         fifo_steps = [\<lparr>step = 1, page = 7, frames = [7], is_hit = False\<rparr>,
                       \<lparr>step = 2, page = 0, frames = [7, 0], is_hit = False\<rparr>,
                       \<lparr>step = 3, page = 7, frames = [7, 0], is_hit = True\<rparr>],
         fifo_faults = 2\<rparr>) = Inr [0, 1]"
proof -
  let ?S = "\<lparr>fifo_frames = [7, 0], fifo_order = [7, 0],
          fifo_steps = [\<lparr>step = 1, page = 7, frames = [7], is_hit = False\<rparr>,
                        \<lparr>step = 2, page = 0, frames = [7, 0], is_hit = False\<rparr>,
                        \<lparr>step = 3, page = 7, frames = [7, 0], is_hit = True\<rparr>],
          fifo_faults = 2\<rparr>"
  have h1: "(1::int) \<le> 2" by simp
  have h2: "for_enumerate (fifo_body 2) 1 [7, 0, 7] fifo_init = Inr ?S"
    by (simp add: fifo_body_def fifo_init_def)
  from fifo_victim_selection [OF h1 h2, of 1 4]
  obtain victim order' s' where "fifo_order ?S = victim # order'"
    and "fifo_body 2 4 1 ?S = Inr s'" and "fifo_order s' = order' @ [1]"
    by auto
  then have "map_sum id fifo_order (fifo_body 2 4 1 ?S) = Inr [0, 1]" by simp
  with h1 h2 show ?thesis by simp
qed

section \<open>LRU: the bookkeeping and the choice of the victim\<close>

lemma last_ref_snoc_same: "last_ref (seen @ [pg]) pg (length seen)"
  by (simp add: last_ref_def)

lemma last_ref_snoc_other:
  assumes "last_ref seen q j" and "q \<noteq> pg"
  shows "last_ref (seen @ [pg]) q j"
  using assms by (auto simp: last_ref_def nth_append)

lemma last_ref_bound: "last_ref seen q j \<Longrightarrow> j < length seen"
  by (simp add: last_ref_def)

lemma last_ref_page: "last_ref seen q j \<Longrightarrow> seen ! j = q"
  by (simp add: last_ref_def)

lemma py_min_spec:
  assumes "xs \<noteq> []"
  shows "\<exists>k<length xs. py_min key xs = Inr (xs ! k) \<and>
           (\<forall>j<length xs. key (xs ! k) \<le> key (xs ! j)) \<and>
           (\<forall>j<k. key (xs ! k) < key (xs ! j))"
proof -
  from assms obtain x ys where xs: "xs = x # ys" by (cases xs) auto
  let ?f = "\<lambda>best y. if key y < key best then y else best"
  have "\<exists>k<length (x # ys). foldl ?f x ys = (x # ys) ! k \<and>
           (\<forall>j<length (x # ys). key ((x # ys) ! k) \<le> key ((x # ys) ! j)) \<and>
           (\<forall>j<k. key ((x # ys) ! k) < key ((x # ys) ! j))"
  proof (induction ys rule: rev_induct)
    case Nil
    show ?case by simp
  next
    case (snoc y ys)
    then obtain k where k: "k < length (x # ys)"
      and best: "foldl ?f x ys = (x # ys) ! k"
      and least: "\<forall>j<length (x # ys). key ((x # ys) ! k) \<le> key ((x # ys) ! j)"
      and first: "\<forall>j<k. key ((x # ys) ! k) < key ((x # ys) ! j)" by blast
    let ?l = "x # ys @ [y]"
    have old: "\<And>j. j < length (x # ys) \<Longrightarrow> ?l ! j = (x # ys) ! j"
    proof -
      fix j assume "j < length (x # ys)"
      then have "((x # ys) @ [y]) ! j = (x # ys) ! j" by (simp only: nth_append if_True)
      then show "?l ! j = (x # ys) ! j" by simp
    qed
    have lastl: "?l ! length (x # ys) = y"
      using nth_append_length [of "x # ys" y "[]"] by simp
    show ?case
    proof (cases "key y < key ((x # ys) ! k)")
      case True
      let ?k' = "length (x # ys)"
      have a: "?k' < length ?l" by simp
      have b: "foldl ?f x (ys @ [y]) = ?l ! ?k'" using True best lastl by simp
      have c: "\<forall>j<length ?l. key (?l ! ?k') \<le> key (?l ! j)"
      proof (intro allI impI)
        fix j assume "j < length ?l"
        then consider "j < length (x # ys)" | "j = length (x # ys)" by fastforce
        then show "key (?l ! ?k') \<le> key (?l ! j)"
        proof cases
          case 1
          with least have "key ((x # ys) ! k) \<le> key ((x # ys) ! j)" by blast
          with True old [OF 1] lastl show ?thesis by simp
        next
          case 2
          then show ?thesis by simp
        qed
      qed
      have d: "\<forall>j<?k'. key (?l ! ?k') < key (?l ! j)"
      proof (intro allI impI)
        fix j assume j: "j < ?k'"
        with least have "key ((x # ys) ! k) \<le> key ((x # ys) ! j)" by blast
        with True old [OF j] lastl show "key (?l ! ?k') < key (?l ! j)" by simp
      qed
      from a b c d show ?thesis by blast
    next
      case False
      have a: "k < length ?l" using k by simp
      have b: "foldl ?f x (ys @ [y]) = ?l ! k" using False best old [OF k] by simp
      have c: "\<forall>j<length ?l. key (?l ! k) \<le> key (?l ! j)"
      proof (intro allI impI)
        fix j assume "j < length ?l"
        then consider "j < length (x # ys)" | "j = length (x # ys)" by fastforce
        then show "key (?l ! k) \<le> key (?l ! j)"
        proof cases
          case 1
          with least have "key ((x # ys) ! k) \<le> key ((x # ys) ! j)" by blast
          with old [OF 1] old [OF k] show ?thesis by simp
        next
          case 2
          with False old [OF k] lastl show ?thesis by simp
        qed
      qed
      have d: "\<forall>j<k. key (?l ! k) < key (?l ! j)"
      proof (intro allI impI)
        fix j assume j: "j < k"
        with k have j': "j < length (x # ys)" by simp
        from first j have "key ((x # ys) ! k) < key ((x # ys) ! j)" by blast
        with old [OF j'] old [OF k] show "key (?l ! k) < key (?l ! j)" by simp
      qed
      from a b c d show ?thesis by blast
    qed
  qed
  then show ?thesis unfolding xs by simp
qed

lemma lru_body_hit:
  assumes "pg \<in> set (lru_frames s)"
  shows "lru_body fc i pg s =
     Inr (s\<lparr>last_used := (last_used s)(pg \<mapsto> i),
            lru_steps := lru_steps s @
               [\<lparr>step = i, page = pg, frames = lru_frames s, is_hit = True\<rparr>]\<rparr>)"
  using assms by (simp add: lru_body_def)

lemma lru_body_append:
  assumes "pg \<notin> set (lru_frames s)" and "int (length (lru_frames s)) < fc"
  shows "lru_body fc i pg s =
     Inr \<lparr>lru_frames = lru_frames s @ [pg],
          last_used = (last_used s)(pg \<mapsto> i),
          lru_steps = lru_steps s @
            [\<lparr>step = i, page = pg, frames = lru_frames s @ [pg], is_hit = False\<rparr>],
          lru_faults = lru_faults s + 1\<rparr>"
  using assms by (simp add: lru_body_def)

lemma lru_body_evict:
  assumes nin: "pg \<notin> set (lru_frames s)" and full: "\<not> int (length (lru_frames s)) < fc"
    and ne: "lru_frames s \<noteq> []"
  shows "\<exists>k<length (lru_frames s).
     (\<forall>j<length (lru_frames s). last_used_get (last_used s) (lru_frames s ! k)
          \<le> last_used_get (last_used s) (lru_frames s ! j)) \<and>
     (\<forall>j<k. last_used_get (last_used s) (lru_frames s ! k)
          < last_used_get (last_used s) (lru_frames s ! j)) \<and>
     lru_body fc i pg s =
       Inr \<lparr>lru_frames = (lru_frames s)[k := pg],
            last_used = (last_used s)(pg \<mapsto> i),
            lru_steps = lru_steps s @
              [\<lparr>step = i, page = pg, frames = (lru_frames s)[k := pg], is_hit = False\<rparr>],
            lru_faults = lru_faults s + 1\<rparr>"
proof -
  let ?F = "lru_frames s" and ?key = "last_used_get (last_used s)"
  from py_min_spec [OF ne, of ?key] obtain k where k: "k < length ?F"
    and m: "py_min ?key ?F = Inr (?F ! k)"
    and least: "\<forall>j<length ?F. ?key (?F ! k) \<le> ?key (?F ! j)"
    and first: "\<forall>j<k. ?key (?F ! k) < ?key (?F ! j)" by blast
  from first have "\<forall>j<k. ?F ! j \<noteq> ?F ! k" by auto
  with k have idx: "list_index ?F (?F ! k) 0 = Some k" by (intro list_index_first) auto
  have "lru_body fc i pg s =
       Inr \<lparr>lru_frames = ?F[k := pg],
            last_used = (last_used s)(pg \<mapsto> i),
            lru_steps = lru_steps s @
              [\<lparr>step = i, page = pg, frames = ?F[k := pg], is_hit = False\<rparr>],
            lru_faults = lru_faults s + 1\<rparr>"
    using nin full m idx k by (simp add: lru_body_def list_set_in_range)
  with k least first show ?thesis by blast
qed

lemma last_used_step:
  assumes "\<forall>q\<in>set seen. \<exists>j. last_ref seen q j \<and> m q = Some (int j + 1)"
  shows "\<forall>q\<in>set (seen @ [pg]). \<exists>j. last_ref (seen @ [pg]) q j \<and>
           (m(pg \<mapsto> int (length seen) + 1)) q = Some (int j + 1)"
proof
  fix q assume q: "q \<in> set (seen @ [pg])"
  show "\<exists>j. last_ref (seen @ [pg]) q j \<and> (m(pg \<mapsto> int (length seen) + 1)) q = Some (int j + 1)"
  proof (cases "q = pg")
    case True
    then show ?thesis using last_ref_snoc_same [of seen pg] by auto
  next
    case False
    with q have "q \<in> set seen" by simp
    with assms obtain j where "last_ref seen q j" "m q = Some (int j + 1)" by blast
    with False show ?thesis using last_ref_snoc_other [of seen q j pg] by auto
  qed
qed

lemma last_used_get_upd_same: "last_used_get (m(pg \<mapsto> i)) pg = i"
  by (simp add: last_used_get_def)

lemma last_used_get_upd_other: "q \<noteq> pg \<Longrightarrow> last_used_get (m(pg \<mapsto> i)) q = last_used_get m q"
  by (simp add: last_used_get_def)

lemma last_used_range:
  assumes "\<forall>q\<in>set seen. \<exists>j. last_ref seen q j \<and> m q = Some (int j + 1)" and "q \<in> set seen"
  shows "last_used_get m q < int (length seen) + 1"
proof -
  from assms obtain j where "last_ref seen q j" "m q = Some (int j + 1)" by blast
  then show ?thesis using last_ref_bound [of seen q j] by (simp add: last_used_get_def)
qed

lemma last_used_inj:
  assumes all: "\<forall>q\<in>set seen. \<exists>j. last_ref seen q j \<and> m q = Some (int j + 1)"
    and p: "p \<in> set seen" and q: "q \<in> set seen"
    and eq: "last_used_get m p = last_used_get m q"
  shows "p = q"
proof -
  from all p obtain j where j: "last_ref seen p j" "m p = Some (int j + 1)" by blast
  from all q obtain k where k: "last_ref seen q k" "m q = Some (int k + 1)" by blast
  from eq j(2) k(2) have "j = k" by (simp add: last_used_get_def)
  with last_ref_page [OF j(1)] last_ref_page [OF k(1)] show ?thesis by simp
qed

lemma lru_body_inv:
  assumes inv: "lru_inv fc seen s" and fc: "1 \<le> fc"
  shows "\<exists>s'. lru_body fc (int (length seen) + 1) pg s = Inr s' \<and> lru_inv fc (seen @ [pg]) s'"
proof -
  let ?i = "int (length seen) + 1"
  let ?F = "lru_frames s" and ?S = "lru_steps s" and ?m = "last_used s"
  let ?m' = "?m(pg \<mapsto> ?i)"
  let ?lu = "last_used_get ?m" and ?lu' = "last_used_get ?m'"
  from inv have tr: "trace_ok fc seen ?F ?S (lru_faults s)"
    and all: "\<forall>q\<in>set seen. \<exists>j. last_ref seen q j \<and> ?m q = Some (int j + 1)"
    and rec: "\<forall>p\<in>set ?F. \<forall>q\<in>set seen - set ?F. ?lu q < ?lu p"
    and fill: "int (length ?F) < fc \<longrightarrow> set ?F = set seen"
    by (simp_all add: lru_inv_def)
  from tr have dF: "distinct ?F" and sub: "set ?F \<subseteq> set seen" by (simp_all add: trace_ok_def)
  note all' = last_used_step [OF all, of pg]
  have new: "?lu' pg = ?i" by (rule last_used_get_upd_same)
  have old: "\<And>q. q \<noteq> pg \<Longrightarrow> ?lu' q = ?lu q" by (rule last_used_get_upd_other)
  have small: "\<And>q. q \<in> set seen \<Longrightarrow> ?lu q < ?i" by (rule last_used_range [OF all])
  show ?thesis
  proof (cases "pg \<in> set ?F")
    case True
    let ?s' = "s\<lparr>last_used := ?m', lru_steps := ?S @
        [\<lparr>step = ?i, page = pg, frames = ?F, is_hit = True\<rparr>]\<rparr>"
    have mv: "frame_move fc ?F pg ?F" using True by (simp add: frame_move_def)
    from trace_ok_step [OF tr mv] True
    have tr': "trace_ok fc (seen @ [pg]) (lru_frames ?s') (lru_steps ?s') (lru_faults ?s')"
      by simp
    have rec': "\<forall>p\<in>set ?F. \<forall>q\<in>set (seen @ [pg]) - set ?F. ?lu' q < ?lu' p"
    proof (intro ballI)
      fix p q assume p: "p \<in> set ?F" and q: "q \<in> set (seen @ [pg]) - set ?F"
      from q True have qs: "q \<in> set seen" "q \<notin> set ?F" "q \<noteq> pg" by auto
      show "?lu' q < ?lu' p"
      proof (cases "p = pg")
        case True
        with new old [OF qs(3)] small [OF qs(1)] show ?thesis by simp
      next
        case False
        with old [OF False] old [OF qs(3)] rec p qs show ?thesis by simp
      qed
    qed
    have fill': "int (length ?F) < fc \<longrightarrow> set ?F = set (seen @ [pg])"
      using fill True sub by auto
    have "lru_inv fc (seen @ [pg]) ?s'"
      unfolding lru_inv_def using tr' all' rec' fill' by simp
    with lru_body_hit [OF True] show ?thesis by simp
  next
    case False
    show ?thesis
    proof (cases "int (length ?F) < fc")
      case True
      let ?st = "\<lparr>step = ?i, page = pg, frames = ?F @ [pg], is_hit = False\<rparr>"
      let ?s' = "\<lparr>lru_frames = ?F @ [pg], last_used = ?m',
          lru_steps = ?S @ [?st], lru_faults = lru_faults s + 1\<rparr>"
      have mv: "frame_move fc ?F pg (?F @ [pg])" using False True by (simp add: frame_move_def)
      from trace_ok_step [OF tr mv] False
      have tr': "trace_ok fc (seen @ [pg]) (?F @ [pg]) (?S @ [?st]) (lru_faults s + 1)"
        by simp
      from fill True have eq: "set ?F = set seen" by simp
      have rec': "\<forall>p\<in>set (?F @ [pg]). \<forall>q\<in>set (seen @ [pg]) - set (?F @ [pg]). ?lu' q < ?lu' p"
        using eq by simp
      have fill': "int (length (?F @ [pg])) < fc \<longrightarrow> set (?F @ [pg]) = set (seen @ [pg])"
        using eq by simp
      have "lru_inv fc (seen @ [pg]) ?s'"
        unfolding lru_inv_def using tr' all' rec' fill' by simp
      with lru_body_append [OF False True] show ?thesis by simp
    next
      case full: False
      from full fc have ne: "?F \<noteq> []" by auto
      from lru_body_evict [OF False full ne, of ?i] obtain k where k: "k < length ?F"
        and least: "\<forall>j<length ?F. ?lu (?F ! k) \<le> ?lu (?F ! j)"
        and body: "lru_body fc ?i pg s =
           Inr \<lparr>lru_frames = ?F[k := pg], last_used = ?m',
            lru_steps = ?S @ [\<lparr>step = ?i, page = pg, frames = ?F[k := pg], is_hit = False\<rparr>],
            lru_faults = lru_faults s + 1\<rparr>" by blast
      let ?F' = "?F[k := pg]"
      let ?st = "\<lparr>step = ?i, page = pg, frames = ?F', is_hit = False\<rparr>"
      let ?s' = "\<lparr>lru_frames = ?F', last_used = ?m',
          lru_steps = ?S @ [?st], lru_faults = lru_faults s + 1\<rparr>"
      let ?v = "?F ! k"
      have mv: "frame_move fc ?F pg ?F'" using False full k by (auto simp: frame_move_def)
      from trace_ok_step [OF tr mv] False
      have tr': "trace_ok fc (seen @ [pg]) ?F' (?S @ [?st]) (lru_faults s + 1)"
        by simp
      have setF': "set ?F' = insert pg (set ?F - {?v})"
        using dF k by (simp add: set_update_distinct)
      have vF: "?v \<in> set ?F" using k by simp
      have rec': "\<forall>p\<in>set ?F'. \<forall>q\<in>set (seen @ [pg]) - set ?F'. ?lu' q < ?lu' p"
      proof (intro ballI)
        fix p q assume p: "p \<in> set ?F'" and q: "q \<in> set (seen @ [pg]) - set ?F'"
        from q setF' have qs: "q \<in> set seen" "q \<noteq> pg" and qv: "q = ?v \<or> q \<notin> set ?F"
          by auto
        show "?lu' q < ?lu' p"
        proof (cases "p = pg")
          case True
          with new old [OF qs(2)] small [OF qs(1)] show ?thesis by simp
        next
          case pn: False
          with p setF' have pF: "p \<in> set ?F" and pv: "p \<noteq> ?v" by auto
          from pF obtain j where j: "j < length ?F" "?F ! j = p"
            by (auto simp: in_set_conv_nth)
          with least have le: "?lu ?v \<le> ?lu p" by auto
          have "?lu ?v \<noteq> ?lu p"
            using last_used_inj [OF all, of ?v p] vF pF sub pv by auto
          with le have lt: "?lu ?v < ?lu p" by simp
          from qv have "?lu q < ?lu p"
          proof
            assume "q = ?v" with lt show ?thesis by simp
          next
            assume "q \<notin> set ?F" with rec pF qs(1) show ?thesis by simp
          qed
          with old [OF pn] old [OF qs(2)] show ?thesis by simp
        qed
      qed
      have fill': "int (length ?F') < fc \<longrightarrow> set ?F' = set (seen @ [pg])"
        using full by simp
      have "lru_inv fc (seen @ [pg]) ?s'"
        unfolding lru_inv_def using tr' all' rec' fill' by simp
      with body show ?thesis by simp
    qed
  qed
qed

lemma lru_inv_init: "0 \<le> fc \<Longrightarrow> lru_inv fc [] lru_init"
  by (simp add: lru_inv_def lru_init_def trace_ok_def)

lemma lru_run:
  assumes fc: "1 \<le> fc"
  shows "\<exists>s. for_enumerate (lru_body fc) 1 seen lru_init = Inr s \<and> lru_inv fc seen s"
proof (induction seen rule: rev_induct)
  case Nil
  from fc show ?case by (simp add: lru_inv_init)
next
  case (snoc pg seen)
  then obtain s where run: "for_enumerate (lru_body fc) 1 seen lru_init = Inr s"
    and inv: "lru_inv fc seen s" by blast
  from lru_body_inv [OF inv fc, of pg] run show ?case
    by (simp add: for_enumerate_snoc)
qed

text \<open>
  C2. In every state \<open>s\<close> that \<open>simulate_lru\<close> reaches with a capacity of at least 1 (after
  the references \<open>seen\<close>): \<open>last_used\<close> maps each resident page to the number of the step
  at which it was last referenced; a hit and an insertion into a free slot both set
  \<open>last_used[page]\<close> to the current step; on a fault with the frame list full the victim
  slot \<open>k\<close> holds a page whose last-used step is smallest among the resident pages, it is
  the lowest such slot, and the new page replaces it in place (its last-used step is set
  as well).
\<close>

theorem lru_victim_selection:
  assumes fc: "1 \<le> frames_count"
    and run: "for_enumerate (lru_body frames_count) 1 seen lru_init = Inr s"
  shows "(\<forall>q\<in>set (lru_frames s). \<exists>j. last_ref seen q j \<and> last_used s q = Some (int j + 1)) \<and>
    (pg \<in> set (lru_frames s) \<longrightarrow>
       (\<exists>s'. lru_body frames_count i pg s = Inr s' \<and>
             last_used s' = (last_used s)(pg \<mapsto> i) \<and> lru_frames s' = lru_frames s)) \<and>
    (pg \<notin> set (lru_frames s) \<and> int (length (lru_frames s)) < frames_count \<longrightarrow>
       (\<exists>s'. lru_body frames_count i pg s = Inr s' \<and>
             last_used s' = (last_used s)(pg \<mapsto> i) \<and> lru_frames s' = lru_frames s @ [pg])) \<and>
    (pg \<notin> set (lru_frames s) \<and> \<not> int (length (lru_frames s)) < frames_count \<longrightarrow>
       (\<exists>k s'. k < length (lru_frames s) \<and>
           (\<forall>j<length (lru_frames s). last_used_get (last_used s) (lru_frames s ! k)
                \<le> last_used_get (last_used s) (lru_frames s ! j)) \<and>
           (\<forall>j<k. last_used_get (last_used s) (lru_frames s ! k)
                < last_used_get (last_used s) (lru_frames s ! j)) \<and>
           lru_body frames_count i pg s = Inr s' \<and>
           lru_frames s' = (lru_frames s)[k := pg] \<and>
           last_used s' = (last_used s)(pg \<mapsto> i)))"
proof -
  from lru_run [OF fc, of seen] run have inv: "lru_inv frames_count seen s" by simp
  then have tr: "trace_ok frames_count seen (lru_frames s) (lru_steps s) (lru_faults s)"
    and all: "\<forall>q\<in>set seen. \<exists>j. last_ref seen q j \<and> last_used s q = Some (int j + 1)"
    by (simp_all add: lru_inv_def)
  from tr have sub: "set (lru_frames s) \<subseteq> set seen" by (simp add: trace_ok_def)
  have book: "\<forall>q\<in>set (lru_frames s). \<exists>j. last_ref seen q j \<and> last_used s q = Some (int j + 1)"
    using all sub by blast
  have hit: "pg \<in> set (lru_frames s) \<longrightarrow>
       (\<exists>s'. lru_body frames_count i pg s = Inr s' \<and>
             last_used s' = (last_used s)(pg \<mapsto> i) \<and> lru_frames s' = lru_frames s)"
    by (simp add: lru_body_hit)
  have ins: "pg \<notin> set (lru_frames s) \<and> int (length (lru_frames s)) < frames_count \<longrightarrow>
       (\<exists>s'. lru_body frames_count i pg s = Inr s' \<and>
             last_used s' = (last_used s)(pg \<mapsto> i) \<and> lru_frames s' = lru_frames s @ [pg])"
    by (simp add: lru_body_append)
  have evict: "pg \<notin> set (lru_frames s) \<and> \<not> int (length (lru_frames s)) < frames_count \<longrightarrow>
       (\<exists>k s'. k < length (lru_frames s) \<and>
           (\<forall>j<length (lru_frames s). last_used_get (last_used s) (lru_frames s ! k)
                \<le> last_used_get (last_used s) (lru_frames s ! j)) \<and>
           (\<forall>j<k. last_used_get (last_used s) (lru_frames s ! k)
                < last_used_get (last_used s) (lru_frames s ! j)) \<and>
           lru_body frames_count i pg s = Inr s' \<and>
           lru_frames s' = (lru_frames s)[k := pg] \<and>
           last_used s' = (last_used s)(pg \<mapsto> i))"
  proof
    assume a: "pg \<notin> set (lru_frames s) \<and> \<not> int (length (lru_frames s)) < frames_count"
    then have nin: "pg \<notin> set (lru_frames s)"
      and full: "\<not> int (length (lru_frames s)) < frames_count" by simp_all
    from full fc have ne: "lru_frames s \<noteq> []" by auto
    from lru_body_evict [OF nin full ne, of i] obtain k where k: "k < length (lru_frames s)"
      and least: "\<forall>j<length (lru_frames s). last_used_get (last_used s) (lru_frames s ! k)
                \<le> last_used_get (last_used s) (lru_frames s ! j)"
      and first: "\<forall>j<k. last_used_get (last_used s) (lru_frames s ! k)
                < last_used_get (last_used s) (lru_frames s ! j)"
      and body: "lru_body frames_count i pg s =
           Inr \<lparr>lru_frames = (lru_frames s)[k := pg], last_used = (last_used s)(pg \<mapsto> i),
            lru_steps = lru_steps s @
              [\<lparr>step = i, page = pg, frames = (lru_frames s)[k := pg], is_hit = False\<rparr>],
            lru_faults = lru_faults s + 1\<rparr>" by blast
    let ?s' = "\<lparr>lru_frames = (lru_frames s)[k := pg], last_used = (last_used s)(pg \<mapsto> i),
            lru_steps = lru_steps s @
              [\<lparr>step = i, page = pg, frames = (lru_frames s)[k := pg], is_hit = False\<rparr>],
            lru_faults = lru_faults s + 1\<rparr>"
    have "k < length (lru_frames s) \<and>
           (\<forall>j<length (lru_frames s). last_used_get (last_used s) (lru_frames s ! k)
                \<le> last_used_get (last_used s) (lru_frames s ! j)) \<and>
           (\<forall>j<k. last_used_get (last_used s) (lru_frames s ! k)
                < last_used_get (last_used s) (lru_frames s ! j)) \<and>
           lru_body frames_count i pg s = Inr ?s' \<and>
           lru_frames ?s' = (lru_frames s)[k := pg] \<and>
           last_used ?s' = (last_used s)(pg \<mapsto> i)"
      using k least first body by simp
    then show "\<exists>k s'. k < length (lru_frames s) \<and>
           (\<forall>j<length (lru_frames s). last_used_get (last_used s) (lru_frames s ! k)
                \<le> last_used_get (last_used s) (lru_frames s ! j)) \<and>
           (\<forall>j<k. last_used_get (last_used s) (lru_frames s ! k)
                < last_used_get (last_used s) (lru_frames s ! j)) \<and>
           lru_body frames_count i pg s = Inr s' \<and>
           lru_frames s' = (lru_frames s)[k := pg] \<and>
           last_used s' = (last_used s)(pg \<mapsto> i)"
      by blast
  qed
  from book hit ins evict show ?thesis by blast
qed

theorem lru_victim_selection_witness:
  "(1::int) \<le> 2 \<and>
   for_enumerate (lru_body 2) 1 [7, 0, 7] lru_init =
     Inr \<lparr>lru_frames = [7, 0], last_used = [7 \<mapsto> 1, 0 \<mapsto> 2, 7 \<mapsto> 3],
          lru_steps = [\<lparr>step = 1, page = 7, frames = [7], is_hit = False\<rparr>,
                       \<lparr>step = 2, page = 0, frames = [7, 0], is_hit = False\<rparr>,
                       \<lparr>step = 3, page = 7, frames = [7, 0], is_hit = True\<rparr>],
          lru_faults = 2\<rparr> \<and>
   map_sum id lru_frames
     (lru_body 2 4 1
        \<lparr>lru_frames = [7, 0], last_used = [7 \<mapsto> 1, 0 \<mapsto> 2, 7 \<mapsto> 3],
         lru_steps = [\<lparr>step = 1, page = 7, frames = [7], is_hit = False\<rparr>,
                      \<lparr>step = 2, page = 0, frames = [7, 0], is_hit = False\<rparr>,
                      \<lparr>step = 3, page = 7, frames = [7, 0], is_hit = True\<rparr>],
         lru_faults = 2\<rparr>) = Inr [7, 1]"
proof -
  let ?S = "\<lparr>lru_frames = [7, 0], last_used = [7 \<mapsto> 1, 0 \<mapsto> 2, 7 \<mapsto> 3],
          lru_steps = [\<lparr>step = 1, page = 7, frames = [7], is_hit = False\<rparr>,
                       \<lparr>step = 2, page = 0, frames = [7, 0], is_hit = False\<rparr>,
                       \<lparr>step = 3, page = 7, frames = [7, 0], is_hit = True\<rparr>],
          lru_faults = 2\<rparr>"
  have h1: "(1::int) \<le> 2" by simp
  have h2: "for_enumerate (lru_body 2) 1 [7, 0, 7] lru_init = Inr ?S"
    by (simp add: lru_body_def lru_init_def)
  from lru_victim_selection [OF h1 h2, of 1 4]
  obtain k s' where k: "k < length (lru_frames ?S)"
    and least: "\<forall>j<length (lru_frames ?S). last_used_get (last_used ?S) (lru_frames ?S ! k)
                \<le> last_used_get (last_used ?S) (lru_frames ?S ! j)"
    and body: "lru_body 2 4 1 ?S = Inr s'" and fr: "lru_frames s' = (lru_frames ?S)[k := 1]"
    by auto
  from k have "k = 0 \<or> k = 1" by auto
  moreover have "(1::nat) < length (lru_frames ?S)" by simp
  with least have "last_used_get (last_used ?S) (lru_frames ?S ! k)
                \<le> last_used_get (last_used ?S) (lru_frames ?S ! 1)" by blast
  then have "k \<noteq> 0" by (cases "k = 0") (simp_all add: last_used_get_def)
  ultimately have "k = 1" by blast
  with body fr have "map_sum id lru_frames (lru_body 2 4 1 ?S) = Inr [7, 1]" by simp
  with h1 h2 show ?thesis by simp
qed

section \<open>Optimal: the scan for the victim\<close>

lemma first_such:
  assumes "\<exists>p\<in>set fs. P p"
  shows "\<exists>j<length fs. P (fs ! j) \<and> (\<forall>m<j. \<not> P (fs ! m))"
  using assms
proof (induction fs)
  case Nil
  then show ?case by simp
next
  case (Cons x xs)
  show ?case
  proof (cases "P x")
    case True
    then have "0 < length (x # xs) \<and> P ((x # xs) ! 0) \<and> (\<forall>m<0. \<not> P ((x # xs) ! m))" by simp
    then show ?thesis by blast
  next
    case False
    with Cons.prems have "\<exists>p\<in>set xs. P p" by simp
    from Cons.IH [OF this] obtain j where j: "j < length xs" "P (xs ! j)" "\<forall>m<j. \<not> P (xs ! m)"
      by blast
    have "Suc j < length (x # xs) \<and> P ((x # xs) ! Suc j) \<and> (\<forall>m<Suc j. \<not> P ((x # xs) ! m))"
      using j False by (simp add: All_less_Suc2)
    then show ?thesis by blast
  qed
qed

lemma optimal_scan_dead:
  assumes "j < length fs"
    and "list_index reference (fs ! j) (nat (ci + 1)) = None"
    and "\<forall>m<j. list_index reference (fs ! m) (nat (ci + 1)) \<noteq> None"
  shows "optimal_scan reference ci (enumerate n fs) far vic = int (n + j)"
  using assms
proof (induction fs arbitrary: n j far vic)
  case Nil
  then show ?case by simp
next
  case (Cons x xs)
  show ?case
  proof (cases j)
    case 0
    with Cons.prems show ?thesis by simp
  next
    case (Suc j')
    with Cons.prems have j': "j' < length xs"
      and dead: "list_index reference (xs ! j') (nat (ci + 1)) = None"
      and live: "\<forall>m<j'. list_index reference (xs ! m) (nat (ci + 1)) \<noteq> None"
      and x: "list_index reference x (nat (ci + 1)) \<noteq> None"
      by (simp_all add: All_less_Suc2)
    from x obtain nu where nu: "list_index reference x (nat (ci + 1)) = Some nu" by auto
    have rec: "\<And>far' vic'. optimal_scan reference ci (enumerate (Suc n) xs) far' vic'
        = int (Suc n + j')"
      by (rule Cons.IH [OF j' dead live])
    show ?thesis using nu rec Suc by simp
  qed
qed

lemma optimal_scan_live:
  assumes "\<forall>m<length fs. list_index reference (fs ! m) (nat (ci + 1)) \<noteq> None"
  shows "(optimal_scan reference ci (enumerate n fs) far vic = vic \<and>
            (\<forall>m<length fs. int (the (list_index reference (fs ! m) (nat (ci + 1)))) \<le> far)) \<or>
         (\<exists>j<length fs. optimal_scan reference ci (enumerate n fs) far vic = int (n + j) \<and>
            far < int (the (list_index reference (fs ! j) (nat (ci + 1)))) \<and>
            (\<forall>m<length fs. the (list_index reference (fs ! m) (nat (ci + 1)))
                 \<le> the (list_index reference (fs ! j) (nat (ci + 1)))) \<and>
            (\<forall>m<j. the (list_index reference (fs ! m) (nat (ci + 1)))
                 < the (list_index reference (fs ! j) (nat (ci + 1)))))"
  using assms
proof (induction fs arbitrary: n far vic)
  case Nil
  show ?case by simp
next
  case (Cons x xs)
  let ?nx = "\<lambda>p. the (list_index reference p (nat (ci + 1)))"
  from Cons.prems have x: "list_index reference x (nat (ci + 1)) \<noteq> None"
    and rest: "\<forall>m<length xs. list_index reference (xs ! m) (nat (ci + 1)) \<noteq> None"
    by (simp_all add: All_less_Suc2)
  from x obtain nu where nu: "list_index reference x (nat (ci + 1)) = Some nu" by auto
  show ?case
  proof (cases "int nu > far")
    case True
    then have step: "optimal_scan reference ci (enumerate n (x # xs)) far vic =
        optimal_scan reference ci (enumerate (Suc n) xs) (int nu) (int n)"
      using nu by simp
    from Cons.IH [OF rest, of "Suc n" "int nu" "int n"]
    show ?thesis
    proof
      assume a: "optimal_scan reference ci (enumerate (Suc n) xs) (int nu) (int n) = int n \<and>
            (\<forall>m<length xs. int (?nx (xs ! m)) \<le> int nu)"
      have "0 < length (x # xs) \<and>
            optimal_scan reference ci (enumerate n (x # xs)) far vic = int (n + 0) \<and>
            far < int (?nx ((x # xs) ! 0)) \<and>
            (\<forall>m<length (x # xs). ?nx ((x # xs) ! m) \<le> ?nx ((x # xs) ! 0)) \<and>
            (\<forall>m<0. ?nx ((x # xs) ! m) < ?nx ((x # xs) ! 0))"
        using a step True nu by (simp add: All_less_Suc2)
      then show ?thesis by blast
    next
      assume "\<exists>j<length xs. optimal_scan reference ci (enumerate (Suc n) xs) (int nu) (int n)
              = int (Suc n + j) \<and>
            int nu < int (?nx (xs ! j)) \<and>
            (\<forall>m<length xs. ?nx (xs ! m) \<le> ?nx (xs ! j)) \<and>
            (\<forall>m<j. ?nx (xs ! m) < ?nx (xs ! j))"
      then obtain j where j: "j < length xs"
        and v: "optimal_scan reference ci (enumerate (Suc n) xs) (int nu) (int n) = int (Suc n + j)"
        and gt: "int nu < int (?nx (xs ! j))"
        and mx: "\<forall>m<length xs. ?nx (xs ! m) \<le> ?nx (xs ! j)"
        and fst: "\<forall>m<j. ?nx (xs ! m) < ?nx (xs ! j)" by blast
      have "Suc j < length (x # xs) \<and>
            optimal_scan reference ci (enumerate n (x # xs)) far vic = int (n + Suc j) \<and>
            far < int (?nx ((x # xs) ! Suc j)) \<and>
            (\<forall>m<length (x # xs). ?nx ((x # xs) ! m) \<le> ?nx ((x # xs) ! Suc j)) \<and>
            (\<forall>m<Suc j. ?nx ((x # xs) ! m) < ?nx ((x # xs) ! Suc j))"
        using j v gt mx fst step True nu by (simp add: All_less_Suc2)
      then show ?thesis by blast
    qed
  next
    case False
    then have step: "optimal_scan reference ci (enumerate n (x # xs)) far vic =
        optimal_scan reference ci (enumerate (Suc n) xs) far vic"
      using nu by simp
    from Cons.IH [OF rest, of "Suc n" far vic]
    show ?thesis
    proof
      assume a: "optimal_scan reference ci (enumerate (Suc n) xs) far vic = vic \<and>
            (\<forall>m<length xs. int (?nx (xs ! m)) \<le> far)"
      have "optimal_scan reference ci (enumerate n (x # xs)) far vic = vic \<and>
            (\<forall>m<length (x # xs). int (?nx ((x # xs) ! m)) \<le> far)"
        using a step False nu by (simp add: All_less_Suc2)
      then show ?thesis by blast
    next
      assume "\<exists>j<length xs. optimal_scan reference ci (enumerate (Suc n) xs) far vic
              = int (Suc n + j) \<and>
            far < int (?nx (xs ! j)) \<and>
            (\<forall>m<length xs. ?nx (xs ! m) \<le> ?nx (xs ! j)) \<and>
            (\<forall>m<j. ?nx (xs ! m) < ?nx (xs ! j))"
      then obtain j where j: "j < length xs"
        and v: "optimal_scan reference ci (enumerate (Suc n) xs) far vic = int (Suc n + j)"
        and gt: "far < int (?nx (xs ! j))"
        and mx: "\<forall>m<length xs. ?nx (xs ! m) \<le> ?nx (xs ! j)"
        and fst: "\<forall>m<j. ?nx (xs ! m) < ?nx (xs ! j)" by blast
      have "Suc j < length (x # xs) \<and>
            optimal_scan reference ci (enumerate n (x # xs)) far vic = int (n + Suc j) \<and>
            far < int (?nx ((x # xs) ! Suc j)) \<and>
            (\<forall>m<length (x # xs). ?nx ((x # xs) ! m) \<le> ?nx ((x # xs) ! Suc j)) \<and>
            (\<forall>m<Suc j. ?nx ((x # xs) ! m) < ?nx ((x # xs) ! Suc j))"
        using j v gt mx fst step False nu by (simp add: All_less_Suc2)
      then show ?thesis by blast
    qed
  qed
qed

lemma set_take_nth:
  assumes "p \<in> set (take k fs)"
  shows "\<exists>m<k. m < length fs \<and> fs ! m = p"
proof -
  from assms obtain m where m: "m < length (take k fs)" "take k fs ! m = p"
    by (auto simp: in_set_conv_nth)
  then have "m < k" "m < length fs" by simp_all
  with m show ?thesis by auto
qed

lemma optimal_scan_victim:
  assumes ne: "fs \<noteq> []"
  shows "\<exists>k. optimal_scan reference ci (enumerate 0 fs) (- 1) (- 1) = int k \<and>
             optimal_victim reference ci fs k"
proof (cases "\<exists>p\<in>set fs. next_use reference ci p = None")
  case True
  from first_such [OF True] obtain j where j: "j < length fs"
    and dead: "next_use reference ci (fs ! j) = None"
    and live: "\<forall>m<j. next_use reference ci (fs ! m) \<noteq> None" by blast
  have scan: "optimal_scan reference ci (enumerate 0 fs) (- 1) (- 1) = int (0 + j)"
    using j dead live unfolding next_use_def by (rule optimal_scan_dead)
  have before: "\<forall>p\<in>set (take j fs). next_use reference ci p \<noteq> None"
  proof
    fix p assume "p \<in> set (take j fs)"
    from set_take_nth [OF this] live show "next_use reference ci p \<noteq> None" by auto
  qed
  have "optimal_victim reference ci fs j"
    unfolding optimal_victim_def using True j dead before by simp
  with scan show ?thesis by simp
next
  case False
  let ?nx = "\<lambda>p. the (next_use reference ci p)"
  from False have all: "\<forall>m<length fs. list_index reference (fs ! m) (nat (ci + 1)) \<noteq> None"
    by (auto simp: next_use_def)
  from ne have pos: "0 < length fs" by simp
  have "\<not> (\<forall>m<length fs. int (the (list_index reference (fs ! m) (nat (ci + 1)))) \<le> - 1)"
    using pos by (auto intro: exI [of _ 0])
  with optimal_scan_live [OF all, of 0 "- 1" "- 1"]
  obtain j where j: "j < length fs"
    and scan: "optimal_scan reference ci (enumerate 0 fs) (- 1) (- 1) = int (0 + j)"
    and mx: "\<forall>m<length fs. ?nx (fs ! m) \<le> ?nx (fs ! j)"
    and fst: "\<forall>m<j. ?nx (fs ! m) < ?nx (fs ! j)"
    unfolding next_use_def by blast
  have mx': "\<forall>p\<in>set fs. ?nx p \<le> ?nx (fs ! j)"
    using mx by (auto simp: in_set_conv_nth)
  have fst': "\<forall>p\<in>set (take j fs). ?nx p < ?nx (fs ! j)"
  proof
    fix p assume "p \<in> set (take j fs)"
    from set_take_nth [OF this] fst show "?nx p < ?nx (fs ! j)" by auto
  qed
  have "optimal_victim reference ci fs j"
    unfolding optimal_victim_def using False j mx' fst' by auto
  with scan show ?thesis by simp
qed

lemma optimal_body_hit:
  assumes "pg \<in> set (optimal_frames s)"
  shows "optimal_body reference fc i pg s =
     Inr (s\<lparr>optimal_steps := optimal_steps s @
               [\<lparr>step = i, page = pg, frames = optimal_frames s, is_hit = True\<rparr>]\<rparr>)"
  using assms by (simp add: optimal_body_def)

lemma optimal_body_append:
  assumes "pg \<notin> set (optimal_frames s)" and "int (length (optimal_frames s)) < fc"
  shows "optimal_body reference fc i pg s =
     Inr \<lparr>optimal_frames = optimal_frames s @ [pg],
          optimal_steps = optimal_steps s @
            [\<lparr>step = i, page = pg, frames = optimal_frames s @ [pg], is_hit = False\<rparr>],
          optimal_faults = optimal_faults s + 1\<rparr>"
  using assms by (simp add: optimal_body_def)

lemma optimal_body_evict:
  assumes nin: "pg \<notin> set (optimal_frames s)"
    and full: "\<not> int (length (optimal_frames s)) < fc"
    and ne: "optimal_frames s \<noteq> []"
  shows "\<exists>k. optimal_victim reference (i - 1) (optimal_frames s) k \<and>
     optimal_body reference fc i pg s =
       Inr \<lparr>optimal_frames = (optimal_frames s)[k := pg],
            optimal_steps = optimal_steps s @
              [\<lparr>step = i, page = pg, frames = (optimal_frames s)[k := pg], is_hit = False\<rparr>],
            optimal_faults = optimal_faults s + 1\<rparr>"
proof -
  let ?F = "optimal_frames s"
  from optimal_scan_victim [OF ne, of reference "i - 1"] obtain k where
    scan: "optimal_scan reference (i - 1) (enumerate 0 ?F) (- 1) (- 1) = int k"
    and vic: "optimal_victim reference (i - 1) ?F k" by blast
  from vic have k: "k < length ?F" by (simp add: optimal_victim_def)
  have "optimal_body reference fc i pg s =
       Inr \<lparr>optimal_frames = ?F[k := pg],
            optimal_steps = optimal_steps s @
              [\<lparr>step = i, page = pg, frames = ?F[k := pg], is_hit = False\<rparr>],
            optimal_faults = optimal_faults s + 1\<rparr>"
    using nin full scan k by (simp add: optimal_body_def Let_def list_set_in_range)
  with vic show ?thesis by blast
qed

lemma optimal_body_inv:
  assumes inv: "optimal_inv fc seen s" and fc: "1 \<le> fc"
  shows "\<exists>s'. optimal_body reference fc (int (length seen) + 1) pg s = Inr s' \<and>
              optimal_inv fc (seen @ [pg]) s'"
proof -
  let ?i = "int (length seen) + 1"
  let ?F = "optimal_frames s" and ?S = "optimal_steps s"
  from inv have tr: "trace_ok fc seen ?F ?S (optimal_faults s)" by (simp add: optimal_inv_def)
  show ?thesis
  proof (cases "pg \<in> set ?F")
    case True
    have mv: "frame_move fc ?F pg ?F" using True by (simp add: frame_move_def)
    from trace_ok_step [OF tr mv] True optimal_body_hit [OF True, of reference fc ?i]
    show ?thesis by (simp add: optimal_inv_def)
  next
    case False
    show ?thesis
    proof (cases "int (length ?F) < fc")
      case True
      have mv: "frame_move fc ?F pg (?F @ [pg])" using False True by (simp add: frame_move_def)
      from trace_ok_step [OF tr mv] False optimal_body_append [OF False True, of reference ?i]
      show ?thesis by (simp add: optimal_inv_def)
    next
      case full: False
      from full fc have ne: "?F \<noteq> []" by auto
      from optimal_body_evict [OF False full ne, of reference ?i] obtain k where
        vic: "optimal_victim reference (?i - 1) ?F k"
        and body: "optimal_body reference fc ?i pg s =
           Inr \<lparr>optimal_frames = ?F[k := pg],
            optimal_steps = ?S @ [\<lparr>step = ?i, page = pg, frames = ?F[k := pg], is_hit = False\<rparr>],
            optimal_faults = optimal_faults s + 1\<rparr>" by blast
      from vic have k: "k < length ?F" by (simp add: optimal_victim_def)
      have mv: "frame_move fc ?F pg (?F[k := pg])"
        using False full k by (auto simp: frame_move_def)
      from trace_ok_step [OF tr mv] False body
      show ?thesis by (simp add: optimal_inv_def)
    qed
  qed
qed

lemma optimal_inv_init: "0 \<le> fc \<Longrightarrow> optimal_inv fc [] optimal_init"
  by (simp add: optimal_inv_def optimal_init_def trace_ok_def)

lemma optimal_run:
  assumes fc: "1 \<le> fc"
  shows "\<exists>s. for_enumerate (optimal_body reference fc) 1 seen optimal_init = Inr s \<and>
             optimal_inv fc seen s"
proof (induction seen rule: rev_induct)
  case Nil
  from fc show ?case by (simp add: optimal_inv_init)
next
  case (snoc pg seen)
  then obtain s where run: "for_enumerate (optimal_body reference fc) 1 seen optimal_init = Inr s"
    and inv: "optimal_inv fc seen s" by blast
  from optimal_body_inv [OF inv fc, of reference pg] run show ?case
    by (simp add: for_enumerate_snoc)
qed

lemma next_use_Some:
  assumes "next_use reference ci p = Some j" and "0 \<le> ci"
  shows "ci < int j \<and> j < length reference \<and> reference ! j = p \<and>
         (\<forall>m. ci < int m \<and> m < j \<longrightarrow> reference ! m \<noteq> p)"
proof -
  from assms(1) have h: "list_index reference p (nat (ci + 1)) = Some j"
    by (simp add: next_use_def)
  note f = list_index_Some [OF h]
  have "\<forall>m. ci < int m \<and> m < j \<longrightarrow> reference ! m \<noteq> p"
  proof (intro allI impI)
    fix m assume "ci < int m \<and> m < j"
    then have "nat (ci + 1) \<le> m" "m < j" by auto
    then show "reference ! m \<noteq> p" by (rule f(4))
  qed
  with f(1) f(2) f(3) assms(2) show ?thesis by auto
qed

lemma next_use_None:
  "next_use reference ci p = None \<longleftrightarrow> p \<notin> set (drop (nat (ci + 1)) reference)"
  by (simp add: next_use_def list_index_None)

text \<open>
  C1. In every state \<open>s\<close> that \<open>simulate_optimal\<close> reaches with a capacity of at least 1,
  on a fault with the frame list full at step \<open>i\<close> (position \<open>i - 1\<close> of the reference
  sequence): the next use looked up for a resident page is the first position strictly
  after the current one at which the page occurs, or none if it does not occur again; a
  slot \<open>k\<close> is chosen that holds, when some resident page is never used again, the first
  such page in slot order, and otherwise the page whose next use is largest, the lowest
  slot among equals; the new page replaces exactly that slot.
\<close>

theorem optimal_victim_selection:
  assumes fc: "1 \<le> frames_count"
    and run: "for_enumerate (optimal_body reference frames_count) 1 seen optimal_init = Inr s"
    and i: "1 \<le> i"
    and fault: "pg \<notin> set (optimal_frames s)"
    and full: "\<not> int (length (optimal_frames s)) < frames_count"
  shows "(\<forall>p j. next_use reference (i - 1) p = Some j \<longrightarrow>
            i - 1 < int j \<and> j < length reference \<and> reference ! j = p \<and>
            (\<forall>m. i - 1 < int m \<and> m < j \<longrightarrow> reference ! m \<noteq> p)) \<and>
         (\<forall>p. next_use reference (i - 1) p = None \<longleftrightarrow> p \<notin> set (drop (nat i) reference)) \<and>
         (\<exists>k s'. optimal_victim reference (i - 1) (optimal_frames s) k \<and>
            optimal_body reference frames_count i pg s = Inr s' \<and>
            optimal_frames s' = (optimal_frames s)[k := pg])"
proof -
  from i have ci: "0 \<le> i - 1" by simp
  have some: "\<forall>p j. next_use reference (i - 1) p = Some j \<longrightarrow>
            i - 1 < int j \<and> j < length reference \<and> reference ! j = p \<and>
            (\<forall>m. i - 1 < int m \<and> m < j \<longrightarrow> reference ! m \<noteq> p)"
    using next_use_Some [OF _ ci] by blast
  have none: "\<forall>p. next_use reference (i - 1) p = None \<longleftrightarrow> p \<notin> set (drop (nat i) reference)"
    using next_use_None [of reference "i - 1"] by simp
  from full fc have ne: "optimal_frames s \<noteq> []" by auto
  from optimal_body_evict [OF fault full ne, of reference i] obtain k where
    vic: "optimal_victim reference (i - 1) (optimal_frames s) k"
    and body: "optimal_body reference frames_count i pg s =
       Inr \<lparr>optimal_frames = (optimal_frames s)[k := pg],
            optimal_steps = optimal_steps s @
              [\<lparr>step = i, page = pg, frames = (optimal_frames s)[k := pg], is_hit = False\<rparr>],
            optimal_faults = optimal_faults s + 1\<rparr>" by blast
  let ?s' = "\<lparr>optimal_frames = (optimal_frames s)[k := pg],
            optimal_steps = optimal_steps s @
              [\<lparr>step = i, page = pg, frames = (optimal_frames s)[k := pg], is_hit = False\<rparr>],
            optimal_faults = optimal_faults s + 1\<rparr>"
  have "optimal_victim reference (i - 1) (optimal_frames s) k \<and>
            optimal_body reference frames_count i pg s = Inr ?s' \<and>
            optimal_frames ?s' = (optimal_frames s)[k := pg]"
    using vic body by simp
  then have ex: "\<exists>k s'. optimal_victim reference (i - 1) (optimal_frames s) k \<and>
            optimal_body reference frames_count i pg s = Inr s' \<and>
            optimal_frames s' = (optimal_frames s)[k := pg]" by blast
  from some none ex show ?thesis by blast
qed

theorem optimal_victim_selection_witness:
  "(1::int) \<le> 3 \<and>
   for_enumerate (optimal_body [1, 2, 3, 4, 1, 2, 3] 3) 1 [1, 2, 3] optimal_init =
     Inr \<lparr>optimal_frames = [1, 2, 3],
          optimal_steps = [\<lparr>step = 1, page = 1, frames = [1], is_hit = False\<rparr>,
                           \<lparr>step = 2, page = 2, frames = [1, 2], is_hit = False\<rparr>,
                           \<lparr>step = 3, page = 3, frames = [1, 2, 3], is_hit = False\<rparr>],
          optimal_faults = 3\<rparr> \<and>
   (1::int) \<le> 4 \<and> (4::int) \<notin> set [1, 2, 3] \<and> \<not> int (length [1, 2, 3 :: int]) < 3 \<and>
   map_sum id optimal_frames
     (optimal_body [1, 2, 3, 4, 1, 2, 3] 3 4 4
        \<lparr>optimal_frames = [1, 2, 3],
         optimal_steps = [\<lparr>step = 1, page = 1, frames = [1], is_hit = False\<rparr>,
                          \<lparr>step = 2, page = 2, frames = [1, 2], is_hit = False\<rparr>,
                          \<lparr>step = 3, page = 3, frames = [1, 2, 3], is_hit = False\<rparr>],
         optimal_faults = 3\<rparr>) = Inr [1, 2, 4]"
proof -
  let ?R = "[1, 2, 3, 4, 1, 2, 3] :: int list"
  let ?S = "\<lparr>optimal_frames = [1, 2, 3],
          optimal_steps = [\<lparr>step = 1, page = 1, frames = [1], is_hit = False\<rparr>,
                           \<lparr>step = 2, page = 2, frames = [1, 2], is_hit = False\<rparr>,
                           \<lparr>step = 3, page = 3, frames = [1, 2, 3], is_hit = False\<rparr>],
          optimal_faults = 3\<rparr>"
  have h1: "(1::int) \<le> 3" by simp
  have h2: "for_enumerate (optimal_body ?R 3) 1 [1, 2, 3] optimal_init = Inr ?S"
    by (simp add: optimal_body_def optimal_init_def)
  have h3: "(1::int) \<le> 4" by simp
  have h4: "(4::int) \<notin> set (optimal_frames ?S)" by simp
  have h5: "\<not> int (length (optimal_frames ?S)) < 3" by simp
  from optimal_victim_selection [OF h1 h2 h3 h4 h5]
  obtain k s' where vic: "optimal_victim ?R (4 - 1) (optimal_frames ?S) k"
    and body: "optimal_body ?R 3 4 4 ?S = Inr s'"
    and fr: "optimal_frames s' = (optimal_frames ?S)[k := 4]" by blast
  have nx: "next_use ?R 3 1 = Some 4" "next_use ?R 3 2 = Some 5" "next_use ?R 3 3 = Some 6"
    by (simp_all add: next_use_def list_index_def)
  from vic have k: "k < 3" and mx: "\<forall>p\<in>set [1, 2, 3 :: int].
      the (next_use ?R 3 p) \<le> the (next_use ?R 3 ([1, 2, 3] ! k))"
    using nx by (simp_all add: optimal_victim_def)
  from k have "k = 0 \<or> k = 1 \<or> k = 2" by auto
  moreover from mx nx have "6 \<le> the (next_use ?R 3 ([1, 2, 3] ! k))" by simp
  then have "k \<noteq> 0 \<and> k \<noteq> 1" using nx by (cases "k = 0"; cases "k = 1") simp_all
  ultimately have "k = 2" by blast
  with body fr have "map_sum id optimal_frames (optimal_body ?R 3 4 4 ?S) = Inr [1, 2, 4]"
    by simp
  with h1 h2 h3 show ?thesis by simp
qed

section \<open>Properties of the recorded steps\<close>

lemma simulate_fifo_trace:
  assumes "1 \<le> fc"
  shows "\<exists>r fs. simulate_fifo reference fc = Inr r \<and>
           trace_ok fc reference fs (steps r) (total_faults r)"
proof -
  from fifo_run [OF assms, of reference] obtain s where
    "for_enumerate (fifo_body fc) 1 reference fifo_init = Inr s" and "fifo_inv fc reference s"
    by blast
  then show ?thesis by (auto simp: simulate_fifo_def fifo_inv_def)
qed

lemma simulate_lru_trace:
  assumes "1 \<le> fc"
  shows "\<exists>r fs. simulate_lru reference fc = Inr r \<and>
           trace_ok fc reference fs (steps r) (total_faults r)"
proof -
  from lru_run [OF assms, of reference] obtain s where
    "for_enumerate (lru_body fc) 1 reference lru_init = Inr s" and "lru_inv fc reference s"
    by blast
  then show ?thesis by (auto simp: simulate_lru_def lru_inv_def)
qed

lemma simulate_optimal_trace:
  assumes "1 \<le> fc"
  shows "\<exists>r fs. simulate_optimal reference fc = Inr r \<and>
           trace_ok fc reference fs (steps r) (total_faults r)"
proof -
  from optimal_run [OF assms, of reference reference] obtain s where
    "for_enumerate (optimal_body reference fc) 1 reference optimal_init = Inr s"
    and "optimal_inv fc reference s"
    by blast
  then show ?thesis by (auto simp: simulate_optimal_def optimal_inv_def)
qed

lemma trace_ok_snapshots:
  assumes "trace_ok fc seen fs sts flt"
  shows "\<forall>st\<in>set sts. distinct (frames st) \<and> int (length (frames st)) \<le> fc"
proof
  fix st assume "st \<in> set sts"
  then obtain k where k: "k < length sts" "sts ! k = st" by (auto simp: in_set_conv_nth)
  with assms show "distinct (frames st) \<and> int (length (frames st)) \<le> fc"
    by (auto simp: trace_ok_def)
qed

lemma trace_ok_first_reference:
  assumes "trace_ok fc seen fs sts flt"
  shows "length sts = length seen \<and>
         (\<forall>k<length seen. page (sts ! k) = seen ! k \<and>
             (seen ! k \<notin> set (take k seen) \<longrightarrow> \<not> is_hit (sts ! k)))"
  using assms by (auto simp: trace_ok_def)

text \<open>
  C7. For each of the three algorithms, every frame capacity of at least 1 and every
  reference sequence, the function returns a result, and the frame snapshot of every step
  of it has no duplicate page and at most \<open>frames_count\<close> entries.
\<close>

theorem snapshots_distinct_bounded:
  assumes fc: "1 \<le> frames_count"
  shows "(\<exists>r. simulate_fifo reference frames_count = Inr r \<and>
            (\<forall>st\<in>set (steps r). distinct (frames st) \<and> int (length (frames st)) \<le> frames_count)) \<and>
         (\<exists>r. simulate_lru reference frames_count = Inr r \<and>
            (\<forall>st\<in>set (steps r). distinct (frames st) \<and> int (length (frames st)) \<le> frames_count)) \<and>
         (\<exists>r. simulate_optimal reference frames_count = Inr r \<and>
            (\<forall>st\<in>set (steps r). distinct (frames st) \<and> int (length (frames st)) \<le> frames_count))"
  using simulate_fifo_trace [OF fc, of reference] simulate_lru_trace [OF fc, of reference]
    simulate_optimal_trace [OF fc, of reference] trace_ok_snapshots
  by blast

theorem snapshots_distinct_bounded_witness:
  "(1::int) \<le> 2 \<and>
   map_sum id (\<lambda>r. list_all (\<lambda>st. distinct (frames st) \<and> int (length (frames st)) \<le> 2) (steps r))
     (simulate_fifo [7, 0, 7, 1] 2) = Inr True \<and>
   map_sum id (\<lambda>r. list_all (\<lambda>st. distinct (frames st) \<and> int (length (frames st)) \<le> 2) (steps r))
     (simulate_lru [7, 0, 7, 1] 2) = Inr True \<and>
   map_sum id (\<lambda>r. list_all (\<lambda>st. distinct (frames st) \<and> int (length (frames st)) \<le> 2) (steps r))
     (simulate_optimal [7, 0, 7, 1] 2) = Inr True"
proof -
  have h: "(1::int) \<le> 2" by simp
  from snapshots_distinct_bounded [OF h, of "[7, 0, 7, 1]"] h show ?thesis
    by (auto simp: list_all_iff)
qed

text \<open>
  C8. For each of the three algorithms, every frame capacity of at least 1 and every
  reference sequence, the function returns a result with one step per reference, in
  order, and a step whose page does not occur at an earlier position of the reference
  sequence is a fault (\<open>is_hit\<close> is false).
\<close>

theorem first_reference_is_fault:
  assumes fc: "1 \<le> frames_count"
  shows "(\<exists>r. simulate_fifo reference frames_count = Inr r \<and>
            length (steps r) = length reference \<and>
            (\<forall>k<length reference. page (steps r ! k) = reference ! k \<and>
               (reference ! k \<notin> set (take k reference) \<longrightarrow> \<not> is_hit (steps r ! k)))) \<and>
         (\<exists>r. simulate_lru reference frames_count = Inr r \<and>
            length (steps r) = length reference \<and>
            (\<forall>k<length reference. page (steps r ! k) = reference ! k \<and>
               (reference ! k \<notin> set (take k reference) \<longrightarrow> \<not> is_hit (steps r ! k)))) \<and>
         (\<exists>r. simulate_optimal reference frames_count = Inr r \<and>
            length (steps r) = length reference \<and>
            (\<forall>k<length reference. page (steps r ! k) = reference ! k \<and>
               (reference ! k \<notin> set (take k reference) \<longrightarrow> \<not> is_hit (steps r ! k))))"
  using simulate_fifo_trace [OF fc, of reference] simulate_lru_trace [OF fc, of reference]
    simulate_optimal_trace [OF fc, of reference] trace_ok_first_reference
  by blast

theorem first_reference_is_fault_witness:
  "(1::int) \<le> 2 \<and>
   map_sum id (\<lambda>r. is_hit (steps r ! 1)) (simulate_fifo [7, 0, 7, 1] 2) = Inr False \<and>
   map_sum id (\<lambda>r. is_hit (steps r ! 1)) (simulate_lru [7, 0, 7, 1] 2) = Inr False \<and>
   map_sum id (\<lambda>r. is_hit (steps r ! 1)) (simulate_optimal [7, 0, 7, 1] 2) = Inr False"
proof -
  have h: "(1::int) \<le> 2" by simp
  have k: "(1::nat) < length [7, 0, 7, 1 :: int]"
    and new: "[7, 0, 7, 1 :: int] ! 1 \<notin> set (take 1 [7, 0, 7, 1])" by simp_all
  note t = first_reference_is_fault [OF h, of "[7, 0, 7, 1]"]
  from t obtain r1 where r1: "simulate_fifo [7, 0, 7, 1] 2 = Inr r1"
    and a1: "\<forall>k<length [7, 0, 7, 1 :: int]. page (steps r1 ! k) = [7, 0, 7, 1] ! k \<and>
       ([7, 0, 7, 1 :: int] ! k \<notin> set (take k [7, 0, 7, 1]) \<longrightarrow> \<not> is_hit (steps r1 ! k))"
    by blast
  from t obtain r2 where r2: "simulate_lru [7, 0, 7, 1] 2 = Inr r2"
    and a2: "\<forall>k<length [7, 0, 7, 1 :: int]. page (steps r2 ! k) = [7, 0, 7, 1] ! k \<and>
       ([7, 0, 7, 1 :: int] ! k \<notin> set (take k [7, 0, 7, 1]) \<longrightarrow> \<not> is_hit (steps r2 ! k))"
    by blast
  from t obtain r3 where r3: "simulate_optimal [7, 0, 7, 1] 2 = Inr r3"
    and a3: "\<forall>k<length [7, 0, 7, 1 :: int]. page (steps r3 ! k) = [7, 0, 7, 1] ! k \<and>
       ([7, 0, 7, 1 :: int] ! k \<notin> set (take k [7, 0, 7, 1]) \<longrightarrow> \<not> is_hit (steps r3 ! k))"
    by blast
  from a1 k new have "\<not> is_hit (steps r1 ! 1)" by blast
  moreover from a2 k new have "\<not> is_hit (steps r2 ! 1)" by blast
  moreover from a3 k new have "\<not> is_hit (steps r3 ! 1)" by blast
  ultimately show ?thesis using h r1 r2 r3 by simp
qed

section \<open>One frame: the three policies coincide\<close>

lemma optimal_scan_single:
  "optimal_scan reference ci [(0, q)] (- 1) (- 1) = 0"
  by (simp split: option.splits)

lemma cap1_step:
  assumes rel: "cap1_rel s1 s2 s3"
  shows "\<exists>t1 t2 t3. fifo_body 1 i pg s1 = Inr t1 \<and> lru_body 1 i pg s2 = Inr t2 \<and>
           optimal_body reference 1 i pg s3 = Inr t3 \<and> cap1_rel t1 t2 t3"
proof -
  from rel have len: "length (fifo_frames s1) \<le> 1" and o: "fifo_order s1 = fifo_frames s1"
    and f2: "lru_frames s2 = fifo_frames s1" and f3: "optimal_frames s3 = fifo_frames s1"
    and st2: "lru_steps s2 = fifo_steps s1" and st3: "optimal_steps s3 = fifo_steps s1"
    and fl2: "lru_faults s2 = fifo_faults s1" and fl3: "optimal_faults s3 = fifo_faults s1"
    by (simp_all add: cap1_rel_def)
  from len consider "fifo_frames s1 = []" | q where "fifo_frames s1 = [q]"
    by (cases "fifo_frames s1") auto
  then show ?thesis
  proof cases
    case 1
    then show ?thesis
      using o f2 f3 st2 st3 fl2 fl3
      by (simp add: fifo_body_def lru_body_def optimal_body_def cap1_rel_def)
  next
    case 2
    show ?thesis
    proof (cases "pg = q")
      case True
      with 2 show ?thesis
        using o f2 f3 st2 st3 fl2 fl3
        by (simp add: fifo_body_def lru_body_def optimal_body_def cap1_rel_def)
    next
      case False
      have b1: "fifo_body 1 i pg s1 =
          Inr \<lparr>fifo_frames = [pg], fifo_order = [pg],
               fifo_steps = fifo_steps s1 @ [\<lparr>step = i, page = pg, frames = [pg], is_hit = False\<rparr>],
               fifo_faults = fifo_faults s1 + 1\<rparr>"
        using 2 o False by (simp add: fifo_body_def list_index_def list_set_def)
      have b2: "lru_body 1 i pg s2 =
          Inr \<lparr>lru_frames = [pg], last_used = (last_used s2)(pg \<mapsto> i),
               lru_steps = fifo_steps s1 @ [\<lparr>step = i, page = pg, frames = [pg], is_hit = False\<rparr>],
               lru_faults = fifo_faults s1 + 1\<rparr>"
        using 2 f2 st2 fl2 False by (simp add: lru_body_def list_index_def list_set_def)
      have b3: "optimal_body reference 1 i pg s3 =
          Inr \<lparr>optimal_frames = [pg],
               optimal_steps = fifo_steps s1 @ [\<lparr>step = i, page = pg, frames = [pg], is_hit = False\<rparr>],
               optimal_faults = fifo_faults s1 + 1\<rparr>"
        using 2 f3 st3 fl3 False optimal_scan_single [of reference "i - 1" q]
        by (simp add: optimal_body_def list_set_def del: optimal_scan.simps)
      show ?thesis unfolding b1 b2 b3 by (simp add: cap1_rel_def)
    qed
  qed
qed

lemma cap1_run:
  "\<exists>s1 s2 s3. for_enumerate (fifo_body 1) 1 seen fifo_init = Inr s1 \<and>
     for_enumerate (lru_body 1) 1 seen lru_init = Inr s2 \<and>
     for_enumerate (optimal_body reference 1) 1 seen optimal_init = Inr s3 \<and>
     cap1_rel s1 s2 s3"
proof (induction seen rule: rev_induct)
  case Nil
  show ?case by (simp add: cap1_rel_def fifo_init_def lru_init_def optimal_init_def)
next
  case (snoc pg seen)
  then obtain s1 s2 s3 where r1: "for_enumerate (fifo_body 1) 1 seen fifo_init = Inr s1"
    and r2: "for_enumerate (lru_body 1) 1 seen lru_init = Inr s2"
    and r3: "for_enumerate (optimal_body reference 1) 1 seen optimal_init = Inr s3"
    and rel: "cap1_rel s1 s2 s3" by blast
  from cap1_step [OF rel, of "int (length seen) + 1" pg reference] r1 r2 r3
  show ?case by (simp add: for_enumerate_snoc)
qed

text \<open>
  C5. For frame capacity 1 and every reference sequence, the three functions return
  results with the same \<open>total_faults\<close> and the same \<open>is_hit\<close> flag at every step.
\<close>

theorem capacity_one_agreement:
  "\<exists>r1 r2 r3. simulate_fifo reference 1 = Inr r1 \<and> simulate_lru reference 1 = Inr r2 \<and>
     simulate_optimal reference 1 = Inr r3 \<and>
     total_faults r1 = total_faults r2 \<and> total_faults r2 = total_faults r3 \<and>
     map is_hit (steps r1) = map is_hit (steps r2) \<and>
     map is_hit (steps r2) = map is_hit (steps r3)"
proof -
  from cap1_run [of reference reference] obtain s1 s2 s3 where
    r1: "for_enumerate (fifo_body 1) 1 reference fifo_init = Inr s1"
    and r2: "for_enumerate (lru_body 1) 1 reference lru_init = Inr s2"
    and r3: "for_enumerate (optimal_body reference 1) 1 reference optimal_init = Inr s3"
    and rel: "cap1_rel s1 s2 s3" by blast
  from rel have "lru_steps s2 = fifo_steps s1" "optimal_steps s3 = fifo_steps s1"
    "lru_faults s2 = fifo_faults s1" "optimal_faults s3 = fifo_faults s1"
    by (simp_all add: cap1_rel_def)
  with r1 r2 r3 show ?thesis
    by (simp add: simulate_fifo_def simulate_lru_def simulate_optimal_def)
qed

section \<open>A larger capacity never adds faults (LRU and optimal)\<close>

lemma card_insert_bound:
  assumes "finite A" and "B \<subseteq> insert x A" and "card B = Suc (card A)"
  shows "x \<notin> A \<and> B = insert x A"
proof -
  from assms(1) have fin: "finite (insert x A)" by simp
  from card_mono [OF fin assms(2)] assms(3) have ge: "Suc (card A) \<le> card (insert x A)" by simp
  have xA: "x \<notin> A"
  proof
    assume "x \<in> A"
    then have "insert x A = A" by auto
    with ge show False by simp
  qed
  with assms(1) have "card (insert x A) = Suc (card A)" by simp
  with assms(3) have "card (insert x A) \<le> card B" by simp
  from card_seteq [OF fin assms(2) this] xA show ?thesis by simp
qed

lemma opt_inclusion_step:
  assumes fA: "finite A" and fB: "finite B"
    and cA: "card A \<le> c" and cB: "card B \<le> Suc c"
    and L1: "live' \<subseteq> live" and L2: "pg \<in> live"
    and inj: "\<forall>p\<in>live'. \<forall>q\<in>live'. nxt p = nxt q \<longrightarrow> p = q"
    and J1: "A \<inter> live \<subseteq> B" and J2: "B \<inter> live \<subseteq> insert x A"
    and mA: "opt_move c live' nxt A pg A'"
    and mB: "opt_move (Suc c) live' nxt B pg B'"
  shows "\<exists>x'. A' \<inter> live' \<subseteq> B' \<and> B' \<inter> live' \<subseteq> insert x' A'"
proof -
  from mA consider
      (hitA) "pg \<in> A" "A' = A"
    | (addA) "pg \<notin> A" "card A < c" "A' = insert pg A"
    | (evA) v where "pg \<notin> A" "card A = c" "v \<in> A" "A' = insert pg (A - {v})"
        "v \<notin> live' \<or> (A \<subseteq> live' \<and> (\<forall>q\<in>A. nxt q \<le> nxt v))"
    unfolding opt_move_def by blast
  then show ?thesis
  proof cases
    case hitA
    with J1 L2 have "pg \<in> B" by blast
    with mB have B': "B' = B" unfolding opt_move_def by blast
    have "A' \<inter> live' \<subseteq> B' \<and> B' \<inter> live' \<subseteq> insert x A'"
      using hitA(2) B' J1 J2 L1 by blast
    then show ?thesis ..
  next
    case addA
    from mB consider
        (hitB) "pg \<in> B" "B' = B"
      | (addB) "pg \<notin> B" "card B < Suc c" "B' = insert pg B"
      | (evB) w where "pg \<notin> B" "card B = Suc c" "w \<in> B" "B' = insert pg (B - {w})"
          "w \<notin> live' \<or> (B \<subseteq> live' \<and> (\<forall>q\<in>B. nxt q \<le> nxt w))"
      unfolding opt_move_def by blast
    then show ?thesis
    proof cases
      case hitB
      have "A' \<inter> live' \<subseteq> B' \<and> B' \<inter> live' \<subseteq> insert x A'"
        using addA(3) hitB J1 J2 L1 by blast
      then show ?thesis ..
    next
      case addB
      have "A' \<inter> live' \<subseteq> B' \<and> B' \<inter> live' \<subseteq> insert x A'"
        using addA(3) addB(3) J1 J2 L1 by blast
      then show ?thesis ..
    next
      case evB
      have "\<not> B \<subseteq> live'"
      proof
        assume "B \<subseteq> live'"
        with L1 J2 have sub: "B \<subseteq> insert x A" by blast
        from fA have "finite (insert x A)" by simp
        from card_mono [OF this sub] have "card B \<le> card (insert x A)" .
        also have "\<dots> \<le> Suc (card A)" using fA by (simp add: card_insert_if)
        finally show False using evB(2) addA(2) by simp
      qed
      with evB(5) have wd: "w \<notin> live'" by blast
      have "A' \<inter> live' \<subseteq> B' \<and> B' \<inter> live' \<subseteq> insert x A'"
        using addA(3) evB(4) wd J1 J2 L1 by blast
      then show ?thesis ..
    qed
  next
    case evA
    from mB consider
        (hitB) "pg \<in> B" "B' = B"
      | (addB) "pg \<notin> B" "card B < Suc c" "B' = insert pg B"
      | (evB) w where "pg \<notin> B" "card B = Suc c" "w \<in> B" "B' = insert pg (B - {w})"
          "w \<notin> live' \<or> (B \<subseteq> live' \<and> (\<forall>q\<in>B. nxt q \<le> nxt w))"
      unfolding opt_move_def by blast
    then show ?thesis
    proof cases
      case hitB
      have "A' \<inter> live' \<subseteq> B' \<and> B' \<inter> live' \<subseteq> insert v A'"
        using evA(1,4) hitB J1 J2 L1 L2 by blast
      then show ?thesis ..
    next
      case addB
      show ?thesis
      proof (cases "v \<in> live'")
        case False
        have "A' \<inter> live' \<subseteq> B' \<and> B' \<inter> live' \<subseteq> insert x A'"
          using evA(4) addB(3) False J1 J2 L1 by blast
        then show ?thesis ..
      next
        case True
        with evA(5) have Al: "A \<subseteq> live'" by blast
        with L1 J1 have AB: "A \<subseteq> B" by blast
        from addB(2) evA(2) have "card B \<le> card A" by simp
        from card_seteq [OF fB AB this] have eq: "A = B" .
        have "A' \<inter> live' \<subseteq> B' \<and> B' \<inter> live' \<subseteq> insert v A'"
          using evA(4) addB(3) eq by blast
        then show ?thesis ..
      qed
    next
      case evB
      show ?thesis
      proof (cases "w \<in> live'")
        case wd: False
        show ?thesis
        proof (cases "v \<in> live'")
          case False
          have "A' \<inter> live' \<subseteq> B' \<and> B' \<inter> live' \<subseteq> insert x A'"
            using evA(4) evB(4) wd False J1 J2 L1 by blast
          then show ?thesis ..
        next
          case True
          with evA(5) have Al: "A \<subseteq> live'" by blast
          with L1 J1 wd have AB: "A \<subseteq> B - {w}" by blast
          have "card (B - {w}) \<le> card A" using evB(2,3) evA(2) fB by simp
          from card_seteq [OF _ AB this] fB have eq: "A = B - {w}" by simp
          have "A' \<inter> live' \<subseteq> B' \<and> B' \<inter> live' \<subseteq> insert v A'"
            using evA(4) evB(4) eq by blast
          then show ?thesis ..
        qed
      next
        case True
        with evB(5) have Bl: "B \<subseteq> live'" and wmax: "\<forall>q\<in>B. nxt q \<le> nxt w" by blast+
        from Bl L1 J2 have sub: "B \<subseteq> insert x A" by blast
        from evB(2) evA(2) have "card B = Suc (card A)" by simp
        from card_insert_bound [OF fA sub this] have xA: "x \<notin> A" and Beq: "B = insert x A"
          by simp_all
        from Beq Bl have Al: "A \<subseteq> live'" by blast
        with evA(3,5) have vmax: "\<forall>q\<in>A. nxt q \<le> nxt v" by blast
        show ?thesis
        proof (cases "w \<in> A")
          case True
          with vmax have "nxt w \<le> nxt v" by blast
          moreover from wmax evA(3) Beq have "nxt v \<le> nxt w" by blast
          ultimately have "nxt v = nxt w" by simp
          moreover from Al evA(3) have "v \<in> live'" by blast
          moreover from Bl evB(3) have "w \<in> live'" by blast
          ultimately have vw: "v = w" using inj by blast
          have "A' \<inter> live' \<subseteq> B' \<and> B' \<inter> live' \<subseteq> insert x A'"
            using evA(4) evB(4) vw Beq by blast
          then show ?thesis ..
        next
          case False
          with evB(3) Beq have wx: "w = x" by blast
          have "A' \<inter> live' \<subseteq> B' \<and> B' \<inter> live' \<subseteq> insert v A'"
            using evA(4) evB(4) wx Beq xA by blast
          then show ?thesis ..
        qed
      qed
    qed
  qed
qed

lemma next_use_live:
  assumes "reference = seen @ pg # rest"
  shows "next_use reference (int (length seen)) p = None \<longleftrightarrow> p \<notin> set rest"
proof -
  have "nat (int (length seen) + 1) = Suc (length seen)" by simp
  then show ?thesis using assms by (simp add: next_use_None)
qed

lemma next_use_inj:
  assumes ref: "reference = seen @ pg # rest" and p: "p \<in> set rest" and q: "q \<in> set rest"
    and eq: "the (next_use reference (int (length seen)) p) =
             the (next_use reference (int (length seen)) q)"
  shows "p = q"
proof -
  from p next_use_live [OF ref, of p] obtain a where
    a: "next_use reference (int (length seen)) p = Some a" by auto
  from q next_use_live [OF ref, of q] obtain b where
    b: "next_use reference (int (length seen)) q = Some b" by auto
  from next_use_Some [OF a] have "reference ! a = p" by simp
  moreover from next_use_Some [OF b] have "reference ! b = q" by simp
  moreover from eq a b have "a = b" by simp
  ultimately show ?thesis by simp
qed

lemma optimal_body_move:
  assumes inv: "optimal_inv fc seen s" and fc: "1 \<le> fc"
    and ref: "reference = seen @ pg # rest"
  shows "\<exists>s'. optimal_body reference fc (int (length seen) + 1) pg s = Inr s' \<and>
      opt_move (nat fc) (set rest) (\<lambda>q. the (next_use reference (int (length seen)) q))
        (set (optimal_frames s)) pg (set (optimal_frames s')) \<and>
      optimal_faults s' = optimal_faults s + (if pg \<in> set (optimal_frames s) then 0 else 1)"
proof -
  let ?i = "int (length seen) + 1"
  let ?F = "optimal_frames s"
  let ?nxt = "\<lambda>q. the (next_use reference (int (length seen)) q)"
  from inv have dF: "distinct ?F" and lF: "int (length ?F) \<le> fc"
    by (simp_all add: optimal_inv_def trace_ok_def)
  from dF have card: "card (set ?F) = length ?F" by (rule distinct_card)
  show ?thesis
  proof (cases "pg \<in> set ?F")
    case True
    from optimal_body_hit [OF True, of reference fc ?i] True show ?thesis
      by (simp add: opt_move_def)
  next
    case False
    show ?thesis
    proof (cases "int (length ?F) < fc")
      case True
      then have "card (set ?F) < nat fc" using card by simp
      with optimal_body_append [OF False True, of reference ?i] False show ?thesis
        by (simp add: opt_move_def)
    next
      case full: False
      from full fc have ne: "?F \<noteq> []" by auto
      from full lF card have cfull: "card (set ?F) = nat fc" by simp
      from optimal_body_evict [OF False full ne, of reference ?i] obtain k where
        vic: "optimal_victim reference (?i - 1) ?F k"
        and body: "optimal_body reference fc ?i pg s =
           Inr \<lparr>optimal_frames = ?F[k := pg],
            optimal_steps = optimal_steps s @
              [\<lparr>step = ?i, page = pg, frames = ?F[k := pg], is_hit = False\<rparr>],
            optimal_faults = optimal_faults s + 1\<rparr>" by blast
      have ci: "?i - 1 = int (length seen)" by simp
      from vic have k: "k < length ?F" by (simp add: optimal_victim_def)
      let ?v = "?F ! k"
      have vF: "?v \<in> set ?F" using k by simp
      have setF': "set (?F[k := pg]) = insert pg (set ?F - {?v})"
        using dF k by (simp add: set_update_distinct)
      have choice: "?v \<notin> set rest \<or> (set ?F \<subseteq> set rest \<and> (\<forall>q\<in>set ?F. ?nxt q \<le> ?nxt ?v))"
      proof (cases "\<exists>p\<in>set ?F. next_use reference (int (length seen)) p = None")
        case True
        with vic have "next_use reference (int (length seen)) ?v = None"
          unfolding ci optimal_victim_def by simp
        then show ?thesis using next_use_live [OF ref, of ?v] by simp
      next
        case False
        with vic have mx: "\<forall>q\<in>set ?F. ?nxt q \<le> ?nxt ?v"
          unfolding ci optimal_victim_def by simp
        from False have "set ?F \<subseteq> set rest" using next_use_live [OF ref] by blast
        with mx show ?thesis by blast
      qed
      have "opt_move (nat fc) (set rest) ?nxt (set ?F) pg (set (?F[k := pg]))"
        unfolding opt_move_def using False cfull vF setF' choice by blast
      with body False show ?thesis by simp
    qed
  qed
qed

lemma optimal_joint:
  assumes fc: "1 \<le> fc"
  shows "reference = seen @ rest \<Longrightarrow>
     \<exists>s1 s2. for_enumerate (optimal_body reference fc) 1 seen optimal_init = Inr s1 \<and>
       for_enumerate (optimal_body reference (fc + 1)) 1 seen optimal_init = Inr s2 \<and>
       (\<exists>x. set (optimal_frames s1) \<inter> set rest \<subseteq> set (optimal_frames s2) \<and>
            set (optimal_frames s2) \<inter> set rest \<subseteq> insert x (set (optimal_frames s1))) \<and>
       optimal_faults s2 \<le> optimal_faults s1"
proof (induction seen arbitrary: rest rule: rev_induct)
  case Nil
  show ?case by (simp add: optimal_init_def)
next
  case (snoc pg seen)
  from snoc.prems have ref: "reference = seen @ pg # rest" by simp
  from snoc.IH [OF ref] obtain s1 s2 x where
    r1: "for_enumerate (optimal_body reference fc) 1 seen optimal_init = Inr s1"
    and r2: "for_enumerate (optimal_body reference (fc + 1)) 1 seen optimal_init = Inr s2"
    and J1: "set (optimal_frames s1) \<inter> set (pg # rest) \<subseteq> set (optimal_frames s2)"
    and J2: "set (optimal_frames s2) \<inter> set (pg # rest) \<subseteq> insert x (set (optimal_frames s1))"
    and fl: "optimal_faults s2 \<le> optimal_faults s1" by blast
  from fc have fc': "1 \<le> fc + 1" by simp
  from optimal_run [OF fc, of reference seen] r1 have inv1: "optimal_inv fc seen s1" by simp
  from optimal_run [OF fc', of reference seen] r2 have inv2: "optimal_inv (fc + 1) seen s2"
    by simp
  let ?i = "int (length seen) + 1"
  let ?nxt = "\<lambda>q. the (next_use reference (int (length seen)) q)"
  let ?A = "set (optimal_frames s1)" and ?B = "set (optimal_frames s2)"
  from optimal_body_move [OF inv1 fc ref] obtain t1 where
    b1: "optimal_body reference fc ?i pg s1 = Inr t1"
    and m1: "opt_move (nat fc) (set rest) ?nxt ?A pg (set (optimal_frames t1))"
    and f1: "optimal_faults t1 = optimal_faults s1 + (if pg \<in> ?A then 0 else 1)" by blast
  from optimal_body_move [OF inv2 fc' ref] obtain t2 where
    b2: "optimal_body reference (fc + 1) ?i pg s2 = Inr t2"
    and m2: "opt_move (nat (fc + 1)) (set rest) ?nxt ?B pg (set (optimal_frames t2))"
    and f2: "optimal_faults t2 = optimal_faults s2 + (if pg \<in> ?B then 0 else 1)" by blast
  from fc have suc: "nat (fc + 1) = Suc (nat fc)" by simp
  from inv1 have "distinct (optimal_frames s1)" "int (length (optimal_frames s1)) \<le> fc"
    by (simp_all add: optimal_inv_def trace_ok_def)
  then have cA: "card ?A \<le> nat fc"
    using distinct_card [of "optimal_frames s1"] by linarith
  from inv2 have "distinct (optimal_frames s2)" "int (length (optimal_frames s2)) \<le> fc + 1"
    by (simp_all add: optimal_inv_def trace_ok_def)
  then have cB: "card ?B \<le> Suc (nat fc)"
    using distinct_card [of "optimal_frames s2"] by linarith
  have inj: "\<forall>p\<in>set rest. \<forall>q\<in>set rest. ?nxt p = ?nxt q \<longrightarrow> p = q"
    using next_use_inj [OF ref] by blast
  have L1: "set rest \<subseteq> set (pg # rest)" by auto
  have L2: "pg \<in> set (pg # rest)" by simp
  have J': "\<exists>x'. set (optimal_frames t1) \<inter> set rest \<subseteq> set (optimal_frames t2) \<and>
      set (optimal_frames t2) \<inter> set rest \<subseteq> insert x' (set (optimal_frames t1))"
    using opt_inclusion_step [OF _ _ cA cB L1 L2 inj J1 J2 m1 m2 [unfolded suc]] by simp
  from J1 L2 have "pg \<in> ?A \<Longrightarrow> pg \<in> ?B" by blast
  with f1 f2 fl have fl': "optimal_faults t2 \<le> optimal_faults t1" by auto
  from r1 r2 b1 b2 J' fl' show ?case by (simp add: for_enumerate_snoc)
qed

lemma last_ref_unique:
  assumes j: "last_ref seen q j" and k: "last_ref seen q k"
  shows "j = k"
proof -
  have later: "\<And>a b. last_ref seen q a \<Longrightarrow> last_ref seen q b \<Longrightarrow> \<not> a < b"
  proof
    fix a b assume a: "last_ref seen q a" and b: "last_ref seen q b" and lt: "a < b"
    from b have bl: "b < length seen" and bq: "seen ! b = q" by (simp_all add: last_ref_def)
    from lt bl have "b - Suc a < length (drop (Suc a) seen)" by simp
    moreover from lt bl have "drop (Suc a) seen ! (b - Suc a) = seen ! b" by simp
    ultimately have "seen ! b \<in> set (drop (Suc a) seen)" by (metis nth_mem)
    with bq a show False by (simp add: last_ref_def)
  qed
  from later [OF j k] later [OF k j] show ?thesis by simp
qed

lemma lru_same_last_used:
  assumes i1: "lru_inv c1 seen s1" and i2: "lru_inv c2 seen s2" and q: "q \<in> set seen"
  shows "last_used_get (last_used s1) q = last_used_get (last_used s2) q"
proof -
  from i1 q obtain j where j: "last_ref seen q j" "last_used s1 q = Some (int j + 1)"
    unfolding lru_inv_def by blast
  from i2 q obtain k where k: "last_ref seen q k" "last_used s2 q = Some (int k + 1)"
    unfolding lru_inv_def by blast
  from last_ref_unique [OF j(1) k(1)] j(2) k(2) show ?thesis
    by (simp add: last_used_get_def)
qed

lemma lru_inclusion:
  assumes i1: "lru_inv fc seen s1" and i2: "lru_inv (fc + 1) seen s2"
  shows "set (lru_frames s1) \<subseteq> set (lru_frames s2)"
proof
  fix p assume p1: "p \<in> set (lru_frames s1)"
  let ?F1 = "lru_frames s1" and ?F2 = "lru_frames s2"
  let ?lu1 = "last_used_get (last_used s1)" and ?lu2 = "last_used_get (last_used s2)"
  from i1 have d1: "distinct ?F1" and l1: "int (length ?F1) \<le> fc" and sub1: "set ?F1 \<subseteq> set seen"
    and rec1: "\<forall>p\<in>set ?F1. \<forall>q\<in>set seen - set ?F1. ?lu1 q < ?lu1 p"
    by (simp_all add: lru_inv_def trace_ok_def)
  from i2 have d2: "distinct ?F2" and sub2: "set ?F2 \<subseteq> set seen"
    and rec2: "\<forall>p\<in>set ?F2. \<forall>q\<in>set seen - set ?F2. ?lu2 q < ?lu2 p"
    and fill2: "int (length ?F2) < fc + 1 \<longrightarrow> set ?F2 = set seen"
    by (simp_all add: lru_inv_def trace_ok_def)
  show "p \<in> set ?F2"
  proof (rule ccontr)
    assume p2: "p \<notin> set ?F2"
    from p1 sub1 have ps: "p \<in> set seen" by blast
    with p2 fill2 have big: "fc + 1 \<le> int (length ?F2)" by auto
    have "set ?F2 \<subseteq> set ?F1"
    proof
      fix q assume q2: "q \<in> set ?F2"
      with sub2 have qs: "q \<in> set seen" by blast
      from rec2 q2 ps p2 have a: "?lu2 p < ?lu2 q" by blast
      show "q \<in> set ?F1"
      proof (rule ccontr)
        assume "q \<notin> set ?F1"
        with rec1 p1 qs have "?lu1 q < ?lu1 p" by blast
        with a lru_same_last_used [OF i1 i2 ps] lru_same_last_used [OF i1 i2 qs]
        show False by simp
      qed
    qed
    then have "card (set ?F2) \<le> card (set ?F1)" by (simp add: card_mono)
    with distinct_card [OF d1] distinct_card [OF d2] have "length ?F2 \<le> length ?F1" by simp
    with big l1 show False by simp
  qed
qed

lemma lru_body_faults:
  assumes "lru_body fc i pg s = Inr s'"
  shows "lru_faults s' = lru_faults s + (if pg \<in> set (lru_frames s) then 0 else 1)"
  using assms by (auto simp: lru_body_def split: if_splits sum.splits option.splits)

lemma lru_joint:
  assumes fc: "1 \<le> fc"
  shows "\<exists>s1 s2. for_enumerate (lru_body fc) 1 seen lru_init = Inr s1 \<and>
       for_enumerate (lru_body (fc + 1)) 1 seen lru_init = Inr s2 \<and>
       lru_faults s2 \<le> lru_faults s1"
proof (induction seen rule: rev_induct)
  case Nil
  show ?case by (simp add: lru_init_def)
next
  case (snoc pg seen)
  then obtain s1 s2 where r1: "for_enumerate (lru_body fc) 1 seen lru_init = Inr s1"
    and r2: "for_enumerate (lru_body (fc + 1)) 1 seen lru_init = Inr s2"
    and fl: "lru_faults s2 \<le> lru_faults s1" by blast
  from fc have fc': "1 \<le> fc + 1" by simp
  from lru_run [OF fc, of seen] r1 have inv1: "lru_inv fc seen s1" by simp
  from lru_run [OF fc', of seen] r2 have inv2: "lru_inv (fc + 1) seen s2" by simp
  let ?i = "int (length seen) + 1"
  from lru_body_inv [OF inv1 fc, of pg] obtain t1 where b1: "lru_body fc ?i pg s1 = Inr t1"
    by blast
  from lru_body_inv [OF inv2 fc', of pg] obtain t2 where b2: "lru_body (fc + 1) ?i pg s2 = Inr t2"
    by blast
  from lru_inclusion [OF inv1 inv2] have "pg \<in> set (lru_frames s1) \<Longrightarrow> pg \<in> set (lru_frames s2)"
    by blast
  with lru_body_faults [OF b1] lru_body_faults [OF b2] fl
  have "lru_faults t2 \<le> lru_faults t1" by auto
  with r1 r2 b1 b2 show ?case by (simp add: for_enumerate_snoc)
qed

text \<open>
  C6. For \<open>simulate_lru\<close> and \<open>simulate_optimal\<close>, every reference sequence and every
  frame capacity \<open>c\<close> of at least 1: both runs, with capacity \<open>c\<close> and with capacity
  \<open>c + 1\<close>, return a result, and the one with capacity \<open>c + 1\<close> has no more faults.
\<close>

theorem capacity_monotone:
  assumes c: "1 \<le> c"
  shows "(\<exists>r1 r2. simulate_lru reference c = Inr r1 \<and> simulate_lru reference (c + 1) = Inr r2 \<and>
            total_faults r2 \<le> total_faults r1) \<and>
         (\<exists>r1 r2. simulate_optimal reference c = Inr r1 \<and>
            simulate_optimal reference (c + 1) = Inr r2 \<and>
            total_faults r2 \<le> total_faults r1)"
proof -
  from lru_joint [OF c, of reference] obtain s1 s2 where
    "for_enumerate (lru_body c) 1 reference lru_init = Inr s1"
    "for_enumerate (lru_body (c + 1)) 1 reference lru_init = Inr s2"
    "lru_faults s2 \<le> lru_faults s1" by blast
  then have lru: "\<exists>r1 r2. simulate_lru reference c = Inr r1 \<and>
      simulate_lru reference (c + 1) = Inr r2 \<and> total_faults r2 \<le> total_faults r1"
    by (simp add: simulate_lru_def)
  have "reference = reference @ []" by simp
  from optimal_joint [OF c this] obtain t1 t2 where
    "for_enumerate (optimal_body reference c) 1 reference optimal_init = Inr t1"
    "for_enumerate (optimal_body reference (c + 1)) 1 reference optimal_init = Inr t2"
    "optimal_faults t2 \<le> optimal_faults t1" by blast
  then have opt: "\<exists>r1 r2. simulate_optimal reference c = Inr r1 \<and>
      simulate_optimal reference (c + 1) = Inr r2 \<and> total_faults r2 \<le> total_faults r1"
    by (simp add: simulate_optimal_def)
  from lru opt show ?thesis by blast
qed

theorem capacity_monotone_witness:
  "(1::int) \<le> 2 \<and>
   map_sum id (\<lambda>r. total_faults r \<le> 5) (simulate_lru [1, 2, 3, 1, 2] 3) = Inr True \<and>
   map_sum id (\<lambda>r. total_faults r \<le> 4) (simulate_optimal [1, 2, 3, 1, 2] 3) = Inr True"
proof -
  have h: "(1::int) \<le> 2" by simp
  have e1: "map_sum id total_faults (simulate_lru [1, 2, 3, 1, 2] 2) = Inr 5" by code_simp
  have e2: "map_sum id total_faults (simulate_optimal [1, 2, 3, 1, 2] 2) = Inr 4" by code_simp
  from capacity_monotone [OF h, of "[1, 2, 3, 1, 2]"] obtain r1 r2 r3 r4 where
    a: "simulate_lru [1, 2, 3, 1, 2] 2 = Inr r1" "simulate_lru [1, 2, 3, 1, 2] (2 + 1) = Inr r2"
      "total_faults r2 \<le> total_faults r1"
    and b: "simulate_optimal [1, 2, 3, 1, 2] 2 = Inr r3"
      "simulate_optimal [1, 2, 3, 1, 2] (2 + 1) = Inr r4" "total_faults r4 \<le> total_faults r3"
    by blast
  from a(1) e1 have "total_faults r1 = 5" by simp
  with a(3) have l: "total_faults r2 \<le> 5" by simp
  from b(1) e2 have "total_faults r3 = 4" by simp
  with b(3) have o: "total_faults r4 \<le> 4" by simp
  from a(2) b(2) have "simulate_lru [1, 2, 3, 1, 2] 3 = Inr r2"
    "simulate_optimal [1, 2, 3, 1, 2] 3 = Inr r4" by simp_all
  with l o h show ?thesis by simp
qed

end
